theory Spec2Isabelle
  imports Main "HOL-Library.Signed_Division" "HOL-Library.Multiset"
begin

section \<open>The load balancer of cmd/load-balancer/main.go\<close>

text \<open>
  The program keeps a pool of workers in a binary min-heap ordered by the number of
  requests each worker still has pending. The pool is a Go slice of pointers
  (\<open>type Pool []*Worker\<close>), and the heap operations write the \<open>idx\<close> field of the
  workers they move, so the model keeps an explicit store: a pointer is an address,
  \<open>mem\<close> maps an address to the struct it points to, and the pool is a list of
  addresses. Two pool slots holding the same address alias the same struct, as in Go.

  Go's \<open>int\<close> is modelled by \<open>int\<close>. Indices are bounded by the length of the slice and
  \<open>pending\<close> changes by one per event (lemma \<open>balance_pending_bound\<close> below), so no
  value leaves the 64-bit range in any run shorter than \<open>2 ^ 63\<close> events. Division is
  Go's, which truncates towards zero (\<open>sdiv\<close>). An index expression outside the slice
  is the run-time panic \<open>IndexOutOfRange\<close>; the program never recovers from a panic.
  A theorem about an arbitrary state is read for pending counts inside that range.

  Channels: the buffered channel \<open>work\<close> of a worker is the list of the requests sent on
  it and not yet received; a send appends and is not modelled to block. The channels
  \<open>req\<close> and \<open>done\<close> are inputs of the balancer: a run of \<open>balance\<close> is given by the list
  of what its \<open>select\<close> received. A reply channel \<open>res\<close> is known by a number.
\<close>

datatype error = IndexOutOfRange

type_synonym addr = nat

record Request =
  data :: int
  res :: nat

record Worker =
  idx :: int
  work :: "Request list"
  pending :: int

record LoadBalancer =
  mem :: "addr \<Rightarrow> Worker"
  pool :: "addr list"

definition reqClientCount :: nat where
  "reqClientCount = 100"

definition workerSize :: nat where
  "workerSize = 10"

subsection \<open>Pool: the methods of heap.Interface\<close>

definition in_bounds :: "'a list \<Rightarrow> int \<Rightarrow> bool" where
  "in_bounds xs i = (0 \<le> i \<and> i < int (length xs))"

definition Pool_Len :: "LoadBalancer \<Rightarrow> int" where
  "Pool_Len b = int (length (pool b))"

definition Pool_Less :: "LoadBalancer \<Rightarrow> int \<Rightarrow> int \<Rightarrow> error + bool" where
  "Pool_Less b i j =
     (if in_bounds (pool b) i \<and> in_bounds (pool b) j
      then Inr (pending (mem b (pool b ! nat i)) < pending (mem b (pool b ! nat j)))
      else Inl IndexOutOfRange)"

definition set_idx :: "addr \<Rightarrow> int \<Rightarrow> (addr \<Rightarrow> Worker) \<Rightarrow> (addr \<Rightarrow> Worker)" where
  "set_idx w i m = m(w := (m w)\<lparr>idx := i\<rparr>)"

definition Pool_Swap :: "LoadBalancer \<Rightarrow> int \<Rightarrow> int \<Rightarrow> error + LoadBalancer" where
  "Pool_Swap b i j =
     (if in_bounds (pool b) i \<and> in_bounds (pool b) j
      then (let a = pool b;
                a' = a[nat i := a ! nat j, nat j := a ! nat i]
            in Inr (b\<lparr>mem := set_idx (a' ! nat j) j (set_idx (a' ! nat i) i (mem b)),
                      pool := a'\<rparr>))
      else Inl IndexOutOfRange)"

definition Pool_Push :: "LoadBalancer \<Rightarrow> addr \<Rightarrow> LoadBalancer" where
  "Pool_Push b w =
     (let n = int (length (pool b))
      in b\<lparr>mem := set_idx w n (mem b), pool := pool b @ [w]\<rparr>)"

definition Pool_Pop :: "LoadBalancer \<Rightarrow> error + (addr \<times> LoadBalancer)" where
  "Pool_Pop b =
     (let old = pool b; n = int (length old)
      in if in_bounds old (n - 1)
         then (let w = old ! nat (n - 1)
               in Inr (w, b\<lparr>mem := set_idx w (- 1) (mem b), pool := take (nat (n - 1)) old\<rparr>))
         else Inl IndexOutOfRange)"

subsection \<open>container/heap: up, down, Push, Pop, Remove\<close>

text \<open>
  The functions of Go's standard package \<open>container/heap\<close> that the program calls
  (\<open>heap.Push\<close>, \<open>heap.Pop\<close>, \<open>heap.Remove\<close>), transcribed from the package's source
  over the methods above. \<open>up\<close> and \<open>down\<close> are its two loops; \<open>down\<close> keeps its test
  \<open>j1 < 0\<close> for an overflown index and reports whether the element moved.
\<close>

function up :: "LoadBalancer \<Rightarrow> int \<Rightarrow> error + LoadBalancer" where
  "up b j =
     (let i = (j - 1) sdiv 2
      in if i = j then Inr b
         else (case Pool_Less b j i of
                 Inl e \<Rightarrow> Inl e
               | Inr lt \<Rightarrow>
                   if \<not> lt then Inr b
                   else (case Pool_Swap b i j of
                           Inl e \<Rightarrow> Inl e
                         | Inr b' \<Rightarrow> up b' i)))"
  by pat_completeness auto
termination
proof (relation "measure (\<lambda>(b, j). nat j)")
  show "wf (measure (\<lambda>(b, j). nat j))" by simp
next
  fix b :: LoadBalancer and j i :: int and lt :: bool and b' :: LoadBalancer
  assume i: "i = (j - 1) sdiv 2" and ne: "i \<noteq> j" and l: "Pool_Less b j i = Inr lt"
  from l have j0: "0 \<le> j"
    by (auto simp: Pool_Less_def in_bounds_def split: if_splits)
  with i ne have "0 < j" by (cases "j = 0") (auto simp: signed_divide_int_def)
  with i have "i < j" by (auto simp: signed_divide_int_def sgn_if)
  with \<open>0 < j\<close> show "((b', i), (b, j)) \<in> measure (\<lambda>(b, j). nat j)" by simp
qed

function down_loop :: "LoadBalancer \<Rightarrow> int \<Rightarrow> int \<Rightarrow> error + (LoadBalancer \<times> int)" where
  "down_loop b i n =
     (let j1 = 2 * i + 1
      in if j1 \<ge> n \<or> j1 < 0 then Inr (b, i)
         else (let j2 = j1 + 1
               in (case (if j2 < n then Pool_Less b j2 j1 else Inr False) of
                     Inl e \<Rightarrow> Inl e
                   | Inr r \<Rightarrow>
                       (let j = (if r then j2 else j1)
                        in (case Pool_Less b j i of
                              Inl e \<Rightarrow> Inl e
                            | Inr lt \<Rightarrow>
                                if \<not> lt then Inr (b, i)
                                else (case Pool_Swap b i j of
                                        Inl e \<Rightarrow> Inl e
                                      | Inr b' \<Rightarrow> down_loop b' j n))))))"
  by pat_completeness auto
termination
  by (relation "measure (\<lambda>(b, i, n). nat (n - i))") (auto split: if_splits)

declare up.simps [simp del]

declare down_loop.simps [simp del]

definition down :: "LoadBalancer \<Rightarrow> int \<Rightarrow> int \<Rightarrow> error + (LoadBalancer \<times> bool)" where
  "down b i0 n =
     (case down_loop b i0 n of
        Inl e \<Rightarrow> Inl e
      | Inr (b', i) \<Rightarrow> Inr (b', i > i0))"

definition heap_Push :: "LoadBalancer \<Rightarrow> addr \<Rightarrow> error + LoadBalancer" where
  "heap_Push b x = (let b' = Pool_Push b x in up b' (Pool_Len b' - 1))"

definition heap_Pop :: "LoadBalancer \<Rightarrow> error + (addr \<times> LoadBalancer)" where
  "heap_Pop b =
     (let n = Pool_Len b - 1
      in (case Pool_Swap b 0 n of
            Inl e \<Rightarrow> Inl e
          | Inr b1 \<Rightarrow>
              (case down b1 0 n of
                 Inl e \<Rightarrow> Inl e
               | Inr (b2, _) \<Rightarrow> Pool_Pop b2)))"

definition heap_Remove :: "LoadBalancer \<Rightarrow> int \<Rightarrow> error + (addr \<times> LoadBalancer)" where
  "heap_Remove b i =
     (let n = Pool_Len b - 1
      in if n \<noteq> i
         then (case Pool_Swap b i n of
                 Inl e \<Rightarrow> Inl e
               | Inr b1 \<Rightarrow>
                   (case down b1 i n of
                      Inl e \<Rightarrow> Inl e
                    | Inr (b2, moved) \<Rightarrow>
                        if \<not> moved
                        then (case up b2 i of
                                Inl e \<Rightarrow> Inl e
                              | Inr b3 \<Rightarrow> Pool_Pop b3)
                        else Pool_Pop b2))
         else Pool_Pop b)"

subsection \<open>LoadBalancer: newLoadBalancer, dispatch, completed, balance\<close>

definition new_Worker :: Worker where
  "new_Worker = \<lparr>idx = 0, work = [], pending = 0\<rparr>"

text \<open>
  The loop of \<open>newLoadBalancer\<close>: each round allocates a worker at a fresh address
  (the next unused one, \<open>a\<close>) and pushes it on the heap. The number of rounds is the
  constant \<open>workerSize\<close> in the source and a parameter here.
\<close>

fun newLoadBalancer_loop :: "nat \<Rightarrow> addr \<Rightarrow> LoadBalancer \<Rightarrow> error + LoadBalancer" where
  "newLoadBalancer_loop 0 a b = Inr b"
| "newLoadBalancer_loop (Suc k) a b =
     (case heap_Push (b\<lparr>mem := (mem b)(a := new_Worker)\<rparr>) a of
        Inl e \<Rightarrow> Inl e
      | Inr b' \<Rightarrow> newLoadBalancer_loop k (Suc a) b')"

definition empty_LoadBalancer :: LoadBalancer where
  "empty_LoadBalancer = \<lparr>mem = (\<lambda>_. new_Worker), pool = []\<rparr>"

definition newLoadBalancer_of :: "nat \<Rightarrow> error + LoadBalancer" where
  "newLoadBalancer_of n = newLoadBalancer_loop n 0 empty_LoadBalancer"

definition newLoadBalancer :: "error + LoadBalancer" where
  "newLoadBalancer = newLoadBalancer_of workerSize"

definition send_work :: "addr \<Rightarrow> Request \<Rightarrow> (addr \<Rightarrow> Worker) \<Rightarrow> (addr \<Rightarrow> Worker)" where
  "send_work w req m = m(w := (m w)\<lparr>work := work (m w) @ [req]\<rparr>)"

definition add_pending :: "addr \<Rightarrow> int \<Rightarrow> (addr \<Rightarrow> Worker) \<Rightarrow> (addr \<Rightarrow> Worker)" where
  "add_pending w d m = m(w := (m w)\<lparr>pending := pending (m w) + d\<rparr>)"

definition dispatch :: "LoadBalancer \<Rightarrow> Request \<Rightarrow> error + LoadBalancer" where
  "dispatch b req =
     (case heap_Pop b of
        Inl e \<Rightarrow> Inl e
      | Inr (w, b1) \<Rightarrow>
          heap_Push (b1\<lparr>mem := add_pending w 1 (send_work w req (mem b1))\<rparr>) w)"

definition completed :: "LoadBalancer \<Rightarrow> addr \<Rightarrow> error + LoadBalancer" where
  "completed b w =
     (let b1 = b\<lparr>mem := add_pending w (- 1) (mem b)\<rparr>
      in (case heap_Remove b1 (idx (mem b1 w)) of
            Inl e \<Rightarrow> Inl e
          | Inr (_, b2) \<Rightarrow> heap_Push b2 w))"

text \<open>
  One round of the \<open>select\<close> in \<open>balance\<close> receives either a request or a worker
  that has finished one; a run of the loop is the list of what it received.
\<close>

datatype event = Arrive Request | Finish addr

fun handle :: "LoadBalancer \<Rightarrow> event \<Rightarrow> error + LoadBalancer" where
  "handle b (Arrive req) = dispatch b req"
| "handle b (Finish w) = completed b w"

fun balance :: "LoadBalancer \<Rightarrow> event list \<Rightarrow> error + LoadBalancer" where
  "balance b [] = Inr b"
| "balance b (e # es) =
     (case handle b e of
        Inl e \<Rightarrow> Inl e
      | Inr b' \<Rightarrow> balance b' es)"

text \<open>
  \<open>main\<close> builds the balancer and runs \<open>balance\<close>: \<open>main_of n es\<close> is the state after
  the events \<open>es\<close>, from a pool of \<open>n\<close> workers. \<open>total_pending\<close> is the \<open>sum\<close> that
  \<open>print\<close> computes after each event.
\<close>

definition main_of :: "nat \<Rightarrow> event list \<Rightarrow> error + LoadBalancer" where
  "main_of n es =
     (case newLoadBalancer_of n of
        Inl e \<Rightarrow> Inl e
      | Inr b \<Rightarrow> balance b es)"

definition total_pending :: "LoadBalancer \<Rightarrow> int" where
  "total_pending b = sum_list (map (\<lambda>a. pending (mem b a)) (pool b))"

section \<open>Invariants\<close>

text \<open>
  \<open>heap_ok\<close> is the min-heap property on \<open>pending\<close>: every slot but the root holds a
  worker with at least as many pending requests as its parent slot. \<open>pos_ok\<close> says
  that the pool holds each worker once and that \<open>idx\<close> of the worker in slot \<open>i\<close>
  is \<open>i\<close>. \<open>frame\<close> and \<open>same_data\<close> say what an operation leaves alone.
\<close>

definition key :: "LoadBalancer \<Rightarrow> int \<Rightarrow> int" where
  "key b c = pending (mem b (pool b ! nat c))"

definition heap_ok :: "LoadBalancer \<Rightarrow> bool" where
  "heap_ok b =
     (\<forall>i \<in> {1..<length (pool b)}.
        pending (mem b (pool b ! ((i - 1) div 2))) \<le> pending (mem b (pool b ! i)))"

definition pos_ok :: "LoadBalancer \<Rightarrow> bool" where
  "pos_ok b =
     (distinct (pool b) \<and>
      (\<forall>i \<in> {0..<length (pool b)}. idx (mem b (pool b ! i)) = int i))"

definition pool_inv :: "LoadBalancer \<Rightarrow> bool" where
  "pool_inv b = (heap_ok b \<and> pos_ok b \<and> pool b \<noteq> [])"

definition frame :: "LoadBalancer \<Rightarrow> LoadBalancer \<Rightarrow> bool" where
  "frame b b' =
     (mset (pool b') = mset (pool b) \<and>
      (\<forall>a. pending (mem b' a) = pending (mem b a) \<and> work (mem b' a) = work (mem b a)))"

definition same_data :: "LoadBalancer \<Rightarrow> LoadBalancer \<Rightarrow> bool" where
  "same_data b b' =
     (\<forall>a. pending (mem b' a) = pending (mem b a) \<and> work (mem b' a) = work (mem b a))"

text \<open>
  The loop invariants of \<open>up\<close> and \<open>down\<close>, over the keys \<open>k\<close> of the first \<open>n\<close>
  slots: the heap property holds on every edge except those at the slot being moved,
  whose parent is already below its children (\<open>bridge\<close>).
\<close>

definition parent :: "int \<Rightarrow> int" where
  "parent c = (c - 1) div 2"

definition heap_upto :: "(int \<Rightarrow> int) \<Rightarrow> int \<Rightarrow> bool" where
  "heap_upto k n = (\<forall>c. 0 < c \<and> c < n \<longrightarrow> k (parent c) \<le> k c)"

definition bridge :: "(int \<Rightarrow> int) \<Rightarrow> int \<Rightarrow> int \<Rightarrow> bool" where
  "bridge k n i =
     (\<forall>c. 0 < c \<and> c < n \<and> parent c = i \<and> 0 < i \<longrightarrow> k (parent i) \<le> k c)"

definition up_inv :: "(int \<Rightarrow> int) \<Rightarrow> int \<Rightarrow> int \<Rightarrow> bool" where
  "up_inv k n j =
     ((\<forall>c. 0 < c \<and> c < n \<and> c \<noteq> j \<longrightarrow> k (parent c) \<le> k c) \<and> bridge k n j)"

definition down_inv :: "(int \<Rightarrow> int) \<Rightarrow> int \<Rightarrow> int \<Rightarrow> int \<Rightarrow> bool" where
  "down_inv k n i u =
     ((\<forall>c. 0 < c \<and> c < n \<and> parent c \<noteq> i \<and> c \<noteq> u \<longrightarrow> k (parent c) \<le> k c) \<and>
      bridge k n i)"

definition below_children :: "(int \<Rightarrow> int) \<Rightarrow> int \<Rightarrow> int \<Rightarrow> bool" where
  "below_children k n i = (\<forall>c. 0 < c \<and> c < n \<and> parent c = i \<longrightarrow> k i \<le> k c)"

section \<open>Events of a run\<close>

text \<open>
  The workers of the pool are the only senders on \<open>done\<close>, so the completions that
  \<open>balance\<close> receives name workers of the pool: \<open>from_pool\<close>, and \<open>known_worker n\<close> for
  the pool of \<open>n\<close> workers that \<open>newLoadBalancer\<close> builds at the addresses below \<open>n\<close>.
\<close>

fun from_pool :: "LoadBalancer \<Rightarrow> event \<Rightarrow> bool" where
  "from_pool b (Arrive req) = True"
| "from_pool b (Finish w) = (w \<in> set (pool b))"

fun known_worker :: "nat \<Rightarrow> event \<Rightarrow> bool" where
  "known_worker n (Arrive req) = True"
| "known_worker n (Finish w) = (w < n)"

fun is_Arrive :: "event \<Rightarrow> bool" where
  "is_Arrive (Arrive req) = True"
| "is_Arrive (Finish w) = False"

definition dispatched :: "event list \<Rightarrow> int" where
  "dispatched es = int (length (filter is_Arrive es))"

definition finished :: "event list \<Rightarrow> int" where
  "finished es = int (length (filter (\<lambda>e. \<not> is_Arrive e) es))"

text \<open>
  \<open>well_timed out b es\<close>: along the run of \<open>es\<close> from \<open>b\<close>, every completion names a
  worker that has a request outstanding. \<open>out w\<close> counts the requests that \<open>dispatch\<close>
  gave to \<open>w\<close> (the worker its \<open>heap.Pop\<close> returned) and that \<open>w\<close> has not yet
  reported finished. A run that panics has no later event to constrain.
\<close>

fun well_timed :: "(addr \<Rightarrow> nat) \<Rightarrow> LoadBalancer \<Rightarrow> event list \<Rightarrow> bool" where
  "well_timed out b [] = True"
| "well_timed out b (Arrive req # es) =
     (case heap_Pop b of
        Inl e \<Rightarrow> True
      | Inr (w, b1) \<Rightarrow>
          (case dispatch b req of
             Inl e \<Rightarrow> True
           | Inr b' \<Rightarrow> well_timed (out(w := out w + 1)) b' es))"
| "well_timed out b (Finish w # es) =
     (0 < out w \<and>
      (case completed b w of
         Inl e \<Rightarrow> True
       | Inr b' \<Rightarrow> well_timed (out(w := out w - 1)) b' es))"

definition main_well_timed :: "nat \<Rightarrow> event list \<Rightarrow> bool" where
  "main_well_timed n es =
     (case newLoadBalancer_of n of
        Inl e \<Rightarrow> True
      | Inr b \<Rightarrow> well_timed (\<lambda>_. 0) b es)"

section \<open>States and requests of the examples\<close>

definition rq :: Request where
  "rq = \<lparr>data = 30, res = 0\<rparr>"

definition scenario_B :: LoadBalancer where
  "scenario_B =
     \<lparr>mem = (\<lambda>a. if a = 0 then \<lparr>idx = 1, work = [], pending = 2\<rparr>
                   else \<lparr>idx = 0, work = [], pending = 0\<rparr>),
      pool = [1, 0]\<rparr>"

definition stale_idx :: LoadBalancer where
  "stale_idx =
     \<lparr>mem = (\<lambda>a. \<lparr>idx = 0, work = [], pending = 1\<rparr>),
      pool = [0, 1]\<rparr>"

definition idle_pool :: LoadBalancer where
  "idle_pool = \<lparr>mem = (\<lambda>a. \<lparr>idx = 0, work = [], pending = 0\<rparr>), pool = [4, 2, 7]\<rparr>"

section \<open>The heap operations\<close>

subsection \<open>Index arithmetic, Less and Swap\<close>

lemma sdiv_parent: "0 < j \<Longrightarrow> (j - 1) sdiv 2 = parent j"
  by (auto simp: signed_divide_int_def sgn_if parent_def)

lemma parent_less: "0 < c \<Longrightarrow> parent c < c"
  by (simp add: parent_def)

lemma parent_nonneg: "0 < c \<Longrightarrow> 0 \<le> parent c"
  by (simp add: parent_def)

lemma parent_eq_iff: "(parent c = i) = (c = 2 * i + 1 \<or> c = 2 * i + 2)"
  unfolding parent_def by presburger

lemma nat_parent: "0 < c \<Longrightarrow> nat (parent c) = (nat c - 1) div 2"
  unfolding parent_def by linarith

lemma parent_int: "0 < i \<Longrightarrow> nat (parent (int i)) = (i - 1) div 2"
  unfolding parent_def by linarith

lemma sdiv_parent_root: "((0::int) - 1) sdiv 2 = 0"
  by (simp add: signed_divide_int_def)

lemma sdiv_parent_fix: "0 \<le> j \<Longrightarrow> ((j - 1) sdiv 2 = j) = (j = (0::int))"
  by (cases "j = 0") (auto simp: signed_divide_int_def sgn_if)

lemma Pool_Less_InrD:
  "Pool_Less b i j = Inr r \<Longrightarrow>
     in_bounds (pool b) i \<and> in_bounds (pool b) j \<and> r = (key b i < key b j)"
  by (auto simp: Pool_Less_def key_def split: if_splits)

lemma Pool_Less_eq:
  "in_bounds (pool b) i \<Longrightarrow> in_bounds (pool b) j \<Longrightarrow> Pool_Less b i j = Inr (key b i < key b j)"
  by (simp add: Pool_Less_def key_def)

lemma Pool_Swap_eq:
  "in_bounds (pool b) i \<Longrightarrow> in_bounds (pool b) j \<Longrightarrow> \<exists>b'. Pool_Swap b i j = Inr b'"
  by (simp add: Pool_Swap_def Let_def)

lemma Pool_Swap_bounds:
  "Pool_Swap b i j = Inr b' \<Longrightarrow> in_bounds (pool b) i \<and> in_bounds (pool b) j"
  by (auto simp: Pool_Swap_def split: if_splits)

lemma Pool_Swap_pool:
  "Pool_Swap b i j = Inr b' \<Longrightarrow>
     pool b' = (pool b)[nat i := pool b ! nat j, nat j := pool b ! nat i]"
  by (auto simp: Pool_Swap_def Let_def split: if_splits)

lemma Pool_Swap_length:
  "Pool_Swap b i j = Inr b' \<Longrightarrow> length (pool b') = length (pool b)"
  by (auto simp: Pool_Swap_def Let_def split: if_splits)

lemma Pool_Swap_frame: "Pool_Swap b i j = Inr b' \<Longrightarrow> frame b b'"
  by (auto simp: Pool_Swap_def Let_def frame_def set_idx_def in_bounds_def mset_swap
           split: if_splits)

lemma Pool_Swap_key:
  assumes "Pool_Swap b i j = Inr b'" and "0 \<le> c"
  shows "key b' c = (if c = i then key b j else if c = j then key b i else key b c)"
proof -
  from assms(1) have bi: "in_bounds (pool b) i" and bj: "in_bounds (pool b) j"
    by (auto dest: Pool_Swap_bounds)
  from assms(1) have p: "\<And>a. pending (mem b' a) = pending (mem b a)"
    using Pool_Swap_frame[OF assms(1)] by (simp add: frame_def)
  have "pool b' ! nat c =
          (if c = i then pool b ! nat j else if c = j then pool b ! nat i else pool b ! nat c)"
    using bi bj assms(2) Pool_Swap_pool[OF assms(1)]
    by (auto simp: in_bounds_def nth_list_update)
  then show ?thesis by (simp add: key_def p)
qed

lemma Pool_Swap_pos_ok:
  assumes "Pool_Swap b i j = Inr b'" and "pos_ok b"
  shows "pos_ok b'"
proof -
  from assms(1) have bi: "in_bounds (pool b) i" and bj: "in_bounds (pool b) j"
    by (auto dest: Pool_Swap_bounds)
  let ?a = "pool b" and ?a' = "pool b'"
  have a': "?a' = ?a[nat i := ?a ! nat j, nat j := ?a ! nat i]"
    by (rule Pool_Swap_pool[OF assms(1)])
  have len: "length ?a' = length ?a" by (simp add: a')
  have d: "distinct ?a" using assms(2) by (simp add: pos_ok_def)
  have "mset ?a' = mset ?a" using Pool_Swap_frame[OF assms(1)] by (simp add: frame_def)
  then have d': "distinct ?a'" using d by (metis mset_eq_imp_distinct_iff)
  have m: "mem b' = set_idx (?a' ! nat j) j (set_idx (?a' ! nat i) i (mem b))"
    using assms(1) by (auto simp: Pool_Swap_def Let_def split: if_splits)
  have "idx (mem b' (?a' ! c)) = int c" if c: "c < length ?a'" for c
  proof (cases "c = nat j")
    case True
    then show ?thesis using bj by (simp add: m set_idx_def in_bounds_def)
  next
    case cj: False
    show ?thesis
    proof (cases "c = nat i")
      case True
      with cj have "?a' ! c \<noteq> ?a' ! nat j"
        using d' c bj len by (auto simp: nth_eq_iff_index_eq in_bounds_def)
      with True show ?thesis using bi by (simp add: m set_idx_def in_bounds_def)
    next
      case ci: False
      have 1: "?a' ! c \<noteq> ?a' ! nat j"
        using cj d' c bj len by (auto simp: nth_eq_iff_index_eq in_bounds_def)
      have 2: "?a' ! c \<noteq> ?a' ! nat i"
        using ci d' c bi len by (auto simp: nth_eq_iff_index_eq in_bounds_def)
      have 3: "?a' ! c = ?a ! c" using ci cj by (simp add: a')
      have "idx (mem b (?a ! c)) = int c" using assms(2) c len by (simp add: pos_ok_def)
      with 1 2 3 show ?thesis by (simp add: m set_idx_def)
    qed
  qed
  with d' show ?thesis by (simp add: pos_ok_def)
qed

lemma frame_refl: "frame b b"
  by (simp add: frame_def)

lemma frame_trans: "frame b b' \<Longrightarrow> frame b' b'' \<Longrightarrow> frame b b''"
  by (simp add: frame_def)

lemma frame_length: "frame b b' \<Longrightarrow> length (pool b') = length (pool b)"
  by (metis frame_def size_mset)

lemma heap_ok_iff: "heap_ok b = heap_upto (key b) (int (length (pool b)))"
proof
  assume h: "heap_ok b"
  show "heap_upto (key b) (int (length (pool b)))"
    unfolding heap_upto_def
  proof (intro allI impI)
    fix c :: int assume c: "0 < c \<and> c < int (length (pool b))"
    then have "nat c \<in> {1..<length (pool b)}" by auto
    with h have "pending (mem b (pool b ! ((nat c - 1) div 2))) \<le> pending (mem b (pool b ! nat c))"
      unfolding heap_ok_def by blast
    then show "key b (parent c) \<le> key b c" using c by (simp add: key_def nat_parent)
  qed
next
  assume h: "heap_upto (key b) (int (length (pool b)))"
  show "heap_ok b"
    unfolding heap_ok_def
  proof
    fix i assume i: "i \<in> {1..<length (pool b)}"
    then have "0 < int i \<and> int i < int (length (pool b))" by auto
    with h have "key b (parent (int i)) \<le> key b (int i)" unfolding heap_upto_def by blast
    then show "pending (mem b (pool b ! ((i - 1) div 2))) \<le> pending (mem b (pool b ! i))"
      using i by (simp add: key_def parent_int)
  qed
qed

subsection \<open>One round of up and of down\<close>

lemma up_inv_heap:
  assumes "up_inv k n j" and "j \<le> 0 \<or> k (parent j) \<le> k j"
  shows "heap_upto k n"
  unfolding heap_upto_def
proof (intro allI impI)
  fix c :: int assume c: "0 < c \<and> c < n"
  show "k (parent c) \<le> k c"
  proof (cases "c = j")
    case True with assms(2) c show ?thesis by auto
  next
    case False with assms(1) c show ?thesis unfolding up_inv_def by blast
  qed
qed

lemma up_inv_step:
  assumes inv: "up_inv k n j" and j: "0 < j" "j < n" and lt: "k j < k (parent j)"
    and k': "\<And>c. 0 \<le> c \<Longrightarrow>
              k' c = (if c = parent j then k j else if c = j then k (parent j) else k c)"
  shows "up_inv k' n (parent j)"
proof -
  define i where "i = parent j"
  have i: "0 \<le> i" "i < j" using j by (simp_all add: i_def parent_nonneg parent_less)
  have k'': "\<And>c. 0 \<le> c \<Longrightarrow> k' c = (if c = i then k j else if c = j then k i else k c)"
    using k' by (simp add: i_def)
  have lt': "k j < k i" using lt by (simp add: i_def)
  have edge: "\<And>c. 0 < c \<Longrightarrow> c < n \<Longrightarrow> c \<noteq> j \<Longrightarrow> k (parent c) \<le> k c"
    using inv unfolding up_inv_def by blast
  have br: "\<And>c. 0 < c \<Longrightarrow> c < n \<Longrightarrow> parent c = j \<Longrightarrow> k i \<le> k c"
    using inv j unfolding up_inv_def bridge_def i_def by blast
  have 1: "k' (parent c) \<le> k' c" if c: "0 < c" "c < n" "c \<noteq> i" for c
  proof -
    have pc: "0 \<le> parent c" "0 \<le> c" "parent c < c"
      using c by (simp_all add: parent_nonneg parent_less)
    consider "c = j" | "c \<noteq> j" "parent c = j" | "c \<noteq> j" "parent c = i"
      | "c \<noteq> j" "parent c \<noteq> j" "parent c \<noteq> i" by blast
    then show ?thesis
    proof cases
      case 1
      then show ?thesis using lt' i k''[of j] k''[of i] by (simp add: i_def)
    next
      case 2
      then have "k' c = k c" "k' (parent c) = k i" using c k''[of c] k''[of j] i j by auto
      then show ?thesis using 2 br[of c] c by simp
    next
      case 3
      then have "k' c = k c" "k' (parent c) = k j" using c k''[of c] k''[of i] i by auto
      then show ?thesis using 3 edge[of c] c lt' by simp
    next
      case 4
      then have "k' c = k c" "k' (parent c) = k (parent c)"
        using c k''[of c] k''[of "parent c"] pc by auto
      then show ?thesis using 4 edge[of c] c by simp
    qed
  qed
  have 2: "k' (parent i) \<le> k' c"
    if c: "0 < c" "c < n" "parent c = i" "0 < i" for c
  proof -
    have pi: "0 \<le> parent i" "parent i < i" using c(4) by (simp_all add: parent_nonneg parent_less)
    have e: "k (parent i) \<le> k i" using edge[of i] c(4) i j by simp
    have p: "k' (parent i) = k (parent i)"
      using k''[of "parent i"] pi i by simp
    show ?thesis
    proof (cases "c = j")
      case True
      then have "k' c = k i" using k''[of j] i j by simp
      then show ?thesis using e p by simp
    next
      case False
      moreover have "c \<noteq> i" using c parent_less[of c] by auto
      ultimately have "k' c = k c" using k''[of c] c by simp
      moreover have "k i \<le> k c" using edge[of c] c False by simp
      ultimately show ?thesis using e p by simp
    qed
  qed
  show ?thesis unfolding up_inv_def bridge_def i_def[symmetric] using 1 2 by blast
qed

lemma down_inv_step:
  assumes inv: "down_inv k n i u" and u: "u = i \<or> u < 0" and i: "0 \<le> i"
    and j: "parent j = i" "0 < j" "j < n" and lt: "k j < k i"
    and least: "\<And>c. 0 < c \<Longrightarrow> c < n \<Longrightarrow> parent c = i \<Longrightarrow> k j \<le> k c"
    and k': "\<And>c. 0 \<le> c \<Longrightarrow> k' c = (if c = i then k j else if c = j then k i else k c)"
  shows "down_inv k' n j (- 1)"
proof -
  have ij: "i < j" using j parent_less[of j] by simp
  have edge: "\<And>c. 0 < c \<Longrightarrow> c < n \<Longrightarrow> parent c \<noteq> i \<Longrightarrow> c \<noteq> u \<Longrightarrow>
                 k (parent c) \<le> k c"
    using inv unfolding down_inv_def by blast
  have br: "\<And>c. 0 < c \<Longrightarrow> c < n \<Longrightarrow> parent c = i \<Longrightarrow> 0 < i \<Longrightarrow> k (parent i) \<le> k c"
    using inv unfolding down_inv_def bridge_def by blast
  have 1: "k' (parent c) \<le> k' c" if c: "0 < c" "c < n" "parent c \<noteq> j" for c
  proof -
    have pc: "0 \<le> parent c" "0 \<le> c" "parent c < c"
      using c by (simp_all add: parent_nonneg parent_less)
    consider "c = i" | "c = j" | "c \<noteq> j" "parent c = i"
      | "c \<noteq> i" "c \<noteq> j" "parent c \<noteq> i" by blast
    then show ?thesis
    proof cases
      case 1
      then have i0: "0 < i" using c by simp
      then have "k (parent i) \<le> k j" using br[of j] j by simp
      moreover have "k' (parent i) = k (parent i)"
        using k'[of "parent i"] parent_less[OF i0] parent_nonneg[OF i0] ij by simp
      moreover have "k' i = k j" using k'[of i] i by simp
      ultimately show ?thesis using 1 by simp
    next
      case 2
      then show ?thesis using j lt k'[of i] k'[of j] i ij by simp
    next
      case 3
      then have "c \<noteq> i" using pc by auto
      then have "k' c = k c" "k' (parent c) = k j" using 3 k'[of c] k'[of i] i c by auto
      then show ?thesis using 3 least[of c] c by simp
    next
      case 4
      then have "c \<noteq> u" using u c by auto
      moreover have "k' c = k c" "k' (parent c) = k (parent c)"
        using 4 c(3) k'[of c] k'[of "parent c"] pc by auto
      ultimately show ?thesis using 4 edge[of c] c by simp
    qed
  qed
  have 2: "k' (parent j) \<le> k' c" if c: "0 < c" "c < n" "parent c = j" for c
  proof -
    have cj: "j < c" using c parent_less[of c] by simp
    then have ne: "c \<noteq> u" "c \<noteq> i" "c \<noteq> j" "parent c \<noteq> i" using u ij i c by auto
    then have "k j \<le> k c" using edge[of c] c by simp
    moreover have "k' c = k c" using k'[of c] c ne by simp
    moreover have "k' (parent j) = k j" using j k'[of i] i by simp
    ultimately show ?thesis by simp
  qed
  show ?thesis unfolding down_inv_def bridge_def using 1 2 by auto
qed

lemma heap_upto_root_least:
  assumes "heap_upto k n" and "0 \<le> c" and "c < n"
  shows "k 0 \<le> k c"
  using assms(2,3)
proof (induction "nat c" arbitrary: c rule: less_induct)
  case less
  show ?case
  proof (cases "c = 0")
    case True then show ?thesis by simp
  next
    case False
    with less.prems have c: "0 < c" by simp
    let ?p = "parent c"
    have "nat ?p < nat c" "0 \<le> ?p" "?p < n"
      using c less.prems parent_less[OF c] parent_nonneg[OF c] by auto
    then have "k 0 \<le> k ?p" using less.hyps by blast
    moreover have "k ?p \<le> k c" using assms(1) c less.prems unfolding heap_upto_def by blast
    ultimately show ?thesis by simp
  qed
qed

subsection \<open>The loop up\<close>

lemma up_frame: "up b j = Inr b' \<Longrightarrow> frame b b'"
proof (induction b j arbitrary: b' rule: up.induct)
  case (1 b j)
  show ?case
  proof (cases "(j - 1) sdiv 2 = j")
    case True
    with "1.prems" show ?thesis by (subst (asm) up.simps) (simp add: frame_refl)
  next
    case ne: False
    from "1.prems" ne obtain lt where l: "Pool_Less b j ((j - 1) sdiv 2) = Inr lt"
      by (subst (asm) up.simps) (auto simp: Let_def split: sum.splits)
    show ?thesis
    proof (cases lt)
      case False
      with "1.prems" ne l show ?thesis by (subst (asm) up.simps) (simp add: frame_refl)
    next
      case True
      from "1.prems" ne l True obtain b1 where
        s: "Pool_Swap b ((j - 1) sdiv 2) j = Inr b1" and u: "up b1 ((j - 1) sdiv 2) = Inr b'"
        by (subst (asm) up.simps) (auto simp: Let_def split: sum.splits)
      have "frame b1 b'" using "1.IH"[OF refl ne l _ s u] True by simp
      with Pool_Swap_frame[OF s] show ?thesis by (rule frame_trans)
    qed
  qed
qed

lemma up_pos_ok: "up b j = Inr b' \<Longrightarrow> pos_ok b \<Longrightarrow> pos_ok b'"
proof (induction b j arbitrary: b' rule: up.induct)
  case (1 b j)
  show ?case
  proof (cases "(j - 1) sdiv 2 = j")
    case True
    with "1.prems" show ?thesis by (subst (asm) up.simps) simp
  next
    case ne: False
    from "1.prems" ne obtain lt where l: "Pool_Less b j ((j - 1) sdiv 2) = Inr lt"
      by (subst (asm) up.simps) (auto simp: Let_def split: sum.splits)
    show ?thesis
    proof (cases lt)
      case False
      with "1.prems" ne l show ?thesis by (subst (asm) up.simps) simp
    next
      case True
      from "1.prems" ne l True obtain b1 where
        s: "Pool_Swap b ((j - 1) sdiv 2) j = Inr b1" and u: "up b1 ((j - 1) sdiv 2) = Inr b'"
        by (subst (asm) up.simps) (auto simp: Let_def split: sum.splits)
      have "pos_ok b1" using Pool_Swap_pos_ok[OF s] "1.prems" by simp
      then show ?thesis using "1.IH"[OF refl ne l _ s u] True by simp
    qed
  qed
qed

lemma up_heap:
  "0 \<le> j \<Longrightarrow> j < n \<Longrightarrow> n \<le> int (length (pool b)) \<Longrightarrow> up_inv (key b) n j \<Longrightarrow>
     \<exists>b'. up b j = Inr b' \<and> heap_upto (key b') n"
proof (induction b j rule: up.induct)
  case (1 b j)
  show ?case
  proof (cases "j = 0")
    case True
    then have "heap_upto (key b) n" using up_inv_heap[OF "1.prems"(4)] by simp
    moreover have "up b j = Inr b"
      using True by (subst up.simps) (simp add: signed_divide_int_def)
    ultimately show ?thesis by simp
  next
    case False
    then have j: "0 < j" using "1.prems" by simp
    have sp: "(j - 1) sdiv 2 = parent j" using j by (rule sdiv_parent)
    have pj: "0 \<le> parent j" "parent j < j" using j by (simp_all add: parent_nonneg parent_less)
    have ne: "(j - 1) sdiv 2 \<noteq> j" using sp pj by simp
    have bj: "in_bounds (pool b) j" "in_bounds (pool b) (parent j)"
      using pj "1.prems" by (simp_all add: in_bounds_def)
    have l: "Pool_Less b j ((j - 1) sdiv 2) = Inr (key b j < key b (parent j))"
      using Pool_Less_eq[OF bj] sp by simp
    show ?thesis
    proof (cases "key b j < key b (parent j)")
      case False
      then have "heap_upto (key b) n" using up_inv_heap[OF "1.prems"(4)] by simp
      moreover have "up b j = Inr b" using False ne l by (subst up.simps) (simp add: Let_def)
      ultimately show ?thesis by simp
    next
      case True
      from Pool_Swap_eq[OF bj(2) bj(1)] obtain b1 where s: "Pool_Swap b (parent j) j = Inr b1"
        by blast
      have len: "length (pool b1) = length (pool b)" using s by (rule Pool_Swap_length)
      have "up_inv (key b1) n (parent j)"
        using "1.prems"(4) j "1.prems"(2) True
      proof (rule up_inv_step)
        fix c :: int assume "0 \<le> c"
        from Pool_Swap_key[OF s this]
        show "key b1 c = (if c = parent j then key b j else if c = j then key b (parent j) else key b c)"
          by simp
      qed
      then have "\<exists>b'. up b1 (parent j) = Inr b' \<and> heap_upto (key b') n"
        using "1.IH"[OF refl ne l _ , of b1] True s sp pj "1.prems" len by simp
      moreover have "up b j = up b1 (parent j)"
        using True ne l s sp by (subst up.simps) (simp add: Let_def)
      ultimately show ?thesis by simp
    qed
  qed
qed

lemma Pool_Swap_nth:
  "Pool_Swap b i j = Inr b' \<Longrightarrow> c \<noteq> nat i \<Longrightarrow> c \<noteq> nat j \<Longrightarrow> pool b' ! c = pool b ! c"
  by (simp add: Pool_Swap_pool)

lemma up_above:
  "up b j = Inr b' \<Longrightarrow> 0 \<le> j \<Longrightarrow> nat j < c \<Longrightarrow> pool b' ! c = pool b ! c"
proof (induction b j arbitrary: b' rule: up.induct)
  case (1 b j)
  show ?case
  proof (cases "(j - 1) sdiv 2 = j")
    case True
    with "1.prems" show ?thesis by (subst (asm) up.simps) simp
  next
    case ne: False
    from "1.prems" ne obtain lt where l: "Pool_Less b j ((j - 1) sdiv 2) = Inr lt"
      by (subst (asm) up.simps) (auto simp: Let_def split: sum.splits)
    show ?thesis
    proof (cases lt)
      case False
      with "1.prems" ne l show ?thesis by (subst (asm) up.simps) simp
    next
      case True
      from "1.prems" ne l True obtain b1 where
        s: "Pool_Swap b ((j - 1) sdiv 2) j = Inr b1" and u: "up b1 ((j - 1) sdiv 2) = Inr b'"
        by (subst (asm) up.simps) (auto simp: Let_def split: sum.splits)
      have j: "0 < j" using ne "1.prems"(2) sdiv_parent_fix[of j] by auto
      have sp: "(j - 1) sdiv 2 = parent j" using j by (rule sdiv_parent)
      have pj: "0 \<le> parent j" "parent j < j" using j by (simp_all add: parent_nonneg parent_less)
      have "pool b' ! c = pool b1 ! c"
        using "1.IH"[OF refl ne l _ s u] True sp pj "1.prems"(3) by simp
      moreover have "pool b1 ! c = pool b ! c"
        using Pool_Swap_nth[OF s, of c] sp pj "1.prems"(3) by simp
      ultimately show ?thesis by simp
    qed
  qed
qed

subsection \<open>The loop down\<close>

lemma down_loop_elim:
  assumes "down_loop b i n = Inr (b', i')"
  obtains
    (leaf) "2 * i + 1 \<ge> n \<or> 2 * i + 1 < 0" "b' = b" "i' = i"
  | (fits) j where "0 \<le> 2 * i + 1" "2 * i + 1 < n"
      "j = 2 * i + 1 \<or> (j = 2 * i + 2 \<and> j < n)"
      "2 * i + 2 < n \<longrightarrow> key b j \<le> key b (2 * i + 1) \<and> key b j \<le> key b (2 * i + 2)"
      "\<not> key b j < key b i" "b' = b" "i' = i"
  | (swap) j b1 where "0 \<le> 2 * i + 1" "2 * i + 1 < n"
      "j = 2 * i + 1 \<or> (j = 2 * i + 2 \<and> j < n)"
      "2 * i + 2 < n \<longrightarrow> key b j \<le> key b (2 * i + 1) \<and> key b j \<le> key b (2 * i + 2)"
      "key b j < key b i" "Pool_Swap b i j = Inr b1" "down_loop b1 j n = Inr (b', i')"
proof (cases "2 * i + 1 \<ge> n \<or> 2 * i + 1 < 0")
  case True
  with assms have "b' = b" "i' = i" by (subst (asm) down_loop.simps, simp)+
  with True show ?thesis by (rule leaf)
next
  case False
  define j1 where "j1 = 2 * i + 1"
  define j2 where "j2 = 2 * i + 2"
  have j2: "j1 + 1 = j2" by (simp add: j1_def j2_def)
  have nl: "\<not> (j1 \<ge> n \<or> j1 < 0)" using False by (simp add: j1_def)
  from assms nl obtain r where
    r: "(if j2 < n then Pool_Less b j2 j1 else Inr False) = Inr r"
    by (subst (asm) down_loop.simps) (auto simp: Let_def j1_def[symmetric] j2 split: sum.splits)
  define j where "j = (if r then j2 else j1)"
  from assms nl r obtain lt where lt: "Pool_Less b j i = Inr lt"
    by (subst (asm) down_loop.simps)
       (auto simp: Let_def j1_def[symmetric] j2 j_def split: sum.splits)
  have jc: "j = 2 * i + 1 \<or> (j = 2 * i + 2 \<and> j < n)"
    using r by (auto simp: j_def j1_def j2_def split: if_splits)
  have least: "2 * i + 2 < n \<longrightarrow> key b j \<le> key b (2 * i + 1) \<and> key b j \<le> key b (2 * i + 2)"
    using r by (auto simp: j_def j1_def j2_def dest!: Pool_Less_InrD split: if_splits)
  have ltk: "lt = (key b j < key b i)" using lt by (auto dest: Pool_Less_InrD)
  have b0: "0 \<le> 2 * i + 1" "2 * i + 1 < n" using False by auto
  show ?thesis
  proof (cases lt)
    case False
    with assms nl r lt have "b' = b" "i' = i"
      by (subst (asm) down_loop.simps, simp add: Let_def j1_def[symmetric] j2 j_def[symmetric])+
    with b0 jc least False ltk show ?thesis by (intro fits[of j]) auto
  next
    case True
    with assms nl r lt obtain b1 where
      "Pool_Swap b i j = Inr b1" "down_loop b1 j n = Inr (b', i')"
      by (subst (asm) down_loop.simps)
         (auto simp: Let_def j1_def[symmetric] j2 j_def[symmetric] split: sum.splits)
    with b0 jc least True ltk show ?thesis by (intro swap[of j b1]) auto
  qed
qed

lemma down_loop_frame: "down_loop b i n = Inr (b', i') \<Longrightarrow> frame b b'"
proof (induction "nat (n - i)" arbitrary: b i rule: less_induct)
  case less
  from less.prems show ?case
  proof (cases rule: down_loop_elim)
    case (swap j b1)
    then have "nat (n - j) < nat (n - i)" by auto
    then have "frame b1 b'" using less.hyps swap by blast
    with Pool_Swap_frame[OF swap(6)] show ?thesis by (rule frame_trans)
  qed (simp_all add: frame_refl)
qed

lemma down_loop_pos_ok: "down_loop b i n = Inr (b', i') \<Longrightarrow> pos_ok b \<Longrightarrow> pos_ok b'"
proof (induction "nat (n - i)" arbitrary: b i rule: less_induct)
  case less
  from less.prems(1) show ?case
  proof (cases rule: down_loop_elim)
    case (swap j b1)
    then have "nat (n - j) < nat (n - i)" by auto
    moreover have "pos_ok b1" using Pool_Swap_pos_ok[OF swap(6)] less.prems by simp
    ultimately show ?thesis using less.hyps swap by blast
  qed (use less.prems in simp_all)
qed

lemma down_loop_total:
  "0 \<le> i \<Longrightarrow> n \<le> int (length (pool b)) \<Longrightarrow> \<exists>r. down_loop b i n = Inr r"
proof (induction "nat (n - i)" arbitrary: b i rule: less_induct)
  case less
  show ?case
  proof (cases "2 * i + 1 \<ge> n \<or> 2 * i + 1 < 0")
    case True
    then show ?thesis by (subst down_loop.simps) simp
  next
    case False
    define j1 where "j1 = 2 * i + 1"
    define j2 where "j2 = 2 * i + 2"
    have j2: "j1 + 1 = j2" by (simp add: j1_def j2_def)
    have nl: "\<not> (j1 \<ge> n \<or> j1 < 0)" using False by (simp add: j1_def)
    have bi: "in_bounds (pool b) i" "in_bounds (pool b) j1"
      using less.prems False by (auto simp: in_bounds_def j1_def)
    have bj2: "j2 < n \<Longrightarrow> in_bounds (pool b) j2"
      using less.prems by (auto simp: in_bounds_def j2_def)
    obtain r where r: "(if j2 < n then Pool_Less b j2 j1 else Inr False) = Inr r"
      using Pool_Less_eq[OF bj2 bi(2)] by (cases "j2 < n") auto
    define j where "j = (if r then j2 else j1)"
    have jb: "in_bounds (pool b) j" "i < j" "j < n"
      using r bi bj2 less.prems nl by (auto simp: j_def j1_def j2_def split: if_splits)
    obtain b1 where s: "Pool_Swap b i j = Inr b1" using Pool_Swap_eq[OF bi(1) jb(1)] by blast
    have "nat (n - j) < nat (n - i)" using jb by auto
    moreover have "0 \<le> j" "n \<le> int (length (pool b1))"
      using jb less.prems Pool_Swap_length[OF s] by auto
    ultimately obtain r' where "down_loop b1 j n = Inr r'" using less.hyps by blast
    then show ?thesis
      using nl r s Pool_Less_eq[OF jb(1) bi(1)]
      by (subst down_loop.simps) (simp add: Let_def j1_def[symmetric] j2 j_def[symmetric])
  qed
qed

lemma down_loop_heap:
  assumes "down_loop b i n = Inr (b', i')" and "0 \<le> i"
    and "down_inv (key b) n i u" and "u = i \<or> u < 0"
  shows "i \<le> i' \<and> (i' = i \<longrightarrow> b' = b) \<and> below_children (key b') n i' \<and>
         down_inv (key b') n i' (if i' = i then u else - 1)"
  using assms
proof (induction "nat (n - i)" arbitrary: b i u rule: less_induct)
  case less
  from less.prems(1) show ?case
  proof (cases rule: down_loop_elim)
    case leaf
    then have "below_children (key b) n i"
      using less.prems(2) by (auto simp: below_children_def parent_eq_iff)
    with leaf less.prems show ?thesis by simp
  next
    case (fits j)
    then have "below_children (key b) n i"
      using less.prems(2) unfolding below_children_def parent_eq_iff by force
    with fits less.prems show ?thesis by simp
  next
    case (swap j b1)
    have pj: "parent j = i" "0 < j" "j < n" "i < j"
      using swap less.prems(2) by (auto simp: parent_eq_iff)
    have least: "\<And>c. 0 < c \<Longrightarrow> c < n \<Longrightarrow> parent c = i \<Longrightarrow> key b j \<le> key b c"
      using swap(3,4) unfolding parent_eq_iff by force
    have "down_inv (key b1) n j (- 1)"
      using less.prems(3,4,2) pj(1,2,3) swap(5) least
    proof (rule down_inv_step)
      fix c :: int assume "0 \<le> c"
      from Pool_Swap_key[OF swap(6) this]
      show "key b1 c = (if c = i then key b j else if c = j then key b i else key b c)" .
    qed
    moreover have "nat (n - j) < nat (n - i)" using pj by auto
    ultimately have "j \<le> i' \<and> (i' = j \<longrightarrow> b' = b1) \<and> below_children (key b') n i' \<and>
         down_inv (key b') n i' (if i' = j then - 1 else - 1)"
      using less.hyps[of j b1 "- 1"] swap(7) pj by simp
    then show ?thesis using pj by auto
  qed
qed

lemma down_loop_above:
  "down_loop b i n = Inr (b', i') \<Longrightarrow> 0 \<le> i \<Longrightarrow> nat n \<le> c \<Longrightarrow> pool b' ! c = pool b ! c"
proof (induction "nat (n - i)" arbitrary: b i rule: less_induct)
  case less
  from less.prems(1) show ?case
  proof (cases rule: down_loop_elim)
    case (swap j b1)
    then have m: "nat (n - j) < nat (n - i)" "0 \<le> j" "j < n" using less.prems(2) by auto
    then have "pool b' ! c = pool b1 ! c" using less.hyps swap(7) less.prems(3) by blast
    moreover have "c \<noteq> nat i" "c \<noteq> nat j" using m less.prems by linarith+
    then have "pool b1 ! c = pool b ! c" by (rule Pool_Swap_nth[OF swap(6)])
    ultimately show ?thesis by simp
  qed simp_all
qed

lemma down_loop_length:
  "down_loop b i n = Inr (b', i') \<Longrightarrow> length (pool b') = length (pool b)"
  by (rule frame_length[OF down_loop_frame])

lemma up_length: "up b j = Inr b' \<Longrightarrow> length (pool b') = length (pool b)"
  by (rule frame_length[OF up_frame])

lemma frame_same_data: "frame b b' \<Longrightarrow> same_data b b'"
  by (simp add: frame_def same_data_def)

lemma same_data_trans: "same_data b b' \<Longrightarrow> same_data b' b'' \<Longrightarrow> same_data b b''"
  by (simp add: same_data_def)

lemma same_data_key:
  "same_data b b' \<Longrightarrow> pool b' ! nat c = pool b ! nat c \<Longrightarrow> key b' c = key b c"
  by (simp add: same_data_def key_def)

subsection \<open>Pool.Push and Pool.Pop\<close>

lemma Pool_Push_pool: "pool (Pool_Push b w) = pool b @ [w]"
  by (simp add: Pool_Push_def Let_def)

lemma Pool_Push_same_data: "same_data b (Pool_Push b w)"
  by (simp add: Pool_Push_def Let_def same_data_def set_idx_def)

lemma Pool_Push_pos_ok:
  assumes "pos_ok b" and "w \<notin> set (pool b)"
  shows "pos_ok (Pool_Push b w)"
proof -
  have "idx (mem (Pool_Push b w) ((pool b @ [w]) ! i)) = int i" if "i < Suc (length (pool b))" for i
  proof (cases "i = length (pool b)")
    case True
    then show ?thesis by (simp add: Pool_Push_def Let_def set_idx_def)
  next
    case False
    with that have i: "i < length (pool b)" by simp
    then have "pool b ! i \<noteq> w" using assms(2) by (metis nth_mem)
    moreover have "idx (mem b (pool b ! i)) = int i" using assms(1) i by (simp add: pos_ok_def)
    ultimately show ?thesis using i by (simp add: Pool_Push_def Let_def set_idx_def nth_append)
  qed
  then show ?thesis using assms by (simp add: pos_ok_def Pool_Push_pool)
qed

lemma Pool_Pop_eq:
  assumes "pool b \<noteq> []"
  shows "Pool_Pop b = Inr (last (pool b),
           b\<lparr>mem := set_idx (last (pool b)) (- 1) (mem b), pool := butlast (pool b)\<rparr>)"
proof -
  have "nat (int (length (pool b)) - 1) = length (pool b) - 1" by simp
  then show ?thesis
    using assms by (simp add: Pool_Pop_def Let_def in_bounds_def last_conv_nth butlast_conv_take)
qed

lemma Pool_Pop_empty: "pool b = [] \<Longrightarrow> Pool_Pop b = Inl IndexOutOfRange"
  by (simp add: Pool_Pop_def Let_def in_bounds_def)

lemma Pool_Pop_spec:
  assumes "Pool_Pop b = Inr (w, b')"
  shows "pool b = pool b' @ [w] \<and> same_data b b' \<and> (pos_ok b \<longrightarrow> pos_ok b' \<and> w \<notin> set (pool b'))"
proof -
  have ne: "pool b \<noteq> []" using assms Pool_Pop_empty[of b] by auto
  from assms Pool_Pop_eq[OF ne] have w: "w = last (pool b)"
    and b': "b' = b\<lparr>mem := set_idx w (- 1) (mem b), pool := butlast (pool b)\<rparr>" by auto
  have p: "pool b = pool b' @ [w]" using ne by (simp add: w b')
  have sd: "same_data b b'" by (simp add: b' same_data_def set_idx_def)
  have "pos_ok b' \<and> w \<notin> set (pool b')" if ok: "pos_ok b"
  proof -
    have d: "distinct (pool b' @ [w])" using ok p by (simp add: pos_ok_def)
    then have nw: "w \<notin> set (pool b')" by simp
    have "idx (mem b' (pool b' ! i)) = int i" if i: "i < length (pool b')" for i
    proof -
      have "pool b' ! i \<noteq> w" using nw i by (metis nth_mem)
      moreover have "idx (mem b (pool b ! i)) = int i" using ok i p by (simp add: pos_ok_def)
      moreover have "pool b ! i = pool b' ! i" using i p by (simp add: nth_append)
      ultimately show ?thesis by (simp add: b' set_idx_def)
    qed
    with d nw show ?thesis by (simp add: pos_ok_def)
  qed
  with p sd show ?thesis by blast
qed

subsection \<open>heap.Push, heap.Pop and heap.Remove\<close>

lemma down_done:
  assumes "below_children k n i" and "down_inv k n i u" and "u < 0"
  shows "heap_upto k n"
  unfolding heap_upto_def
proof (intro allI impI)
  fix c :: int assume c: "0 < c \<and> c < n"
  show "k (parent c) \<le> k c"
  proof (cases "parent c = i")
    case True with assms(1) c show ?thesis unfolding below_children_def by blast
  next
    case False
    moreover have "c \<noteq> u" using c assms(3) by simp
    ultimately show ?thesis using assms(2) c unfolding down_inv_def by blast
  qed
qed

lemma down_stay:
  assumes "below_children k n i" and "down_inv k n i i"
  shows "up_inv k n i"
  unfolding up_inv_def
proof (intro conjI allI impI)
  fix c :: int assume c: "0 < c \<and> c < n \<and> c \<noteq> i"
  show "k (parent c) \<le> k c"
  proof (cases "parent c = i")
    case True with assms(1) c show ?thesis unfolding below_children_def by blast
  next
    case False
    then show ?thesis using assms(2) c unfolding down_inv_def by blast
  qed
next
  show "bridge k n i" using assms(2) unfolding down_inv_def by blast
qed

lemma heap_Push_spec:
  assumes "heap_ok b"
  shows "\<exists>b'. heap_Push b w = Inr b' \<and> heap_ok b' \<and>
           mset (pool b') = add_mset w (mset (pool b)) \<and> same_data b b' \<and>
           (pos_ok b \<longrightarrow> w \<notin> set (pool b) \<longrightarrow> pos_ok b')"
proof -
  define n where "n = int (length (pool b))"
  define b1 where "b1 = Pool_Push b w"
  have p1: "pool b1 = pool b @ [w]" by (simp add: b1_def Pool_Push_pool)
  have sd1: "same_data b b1" by (simp add: b1_def Pool_Push_same_data)
  have len1: "int (length (pool b1)) = n + 1" by (simp add: p1 n_def)
  have k1: "key b1 c = key b c" if "0 \<le> c" "c < n" for c
  proof -
    have "nat c < length (pool b)" using that by (simp add: n_def nat_less_iff)
    then show ?thesis by (intro same_data_key[OF sd1]) (simp add: p1 nth_append)
  qed
  have h: "heap_upto (key b) n" using assms by (simp add: heap_ok_iff n_def)
  have "up_inv (key b1) (n + 1) n"
    unfolding up_inv_def bridge_def
  proof (intro conjI allI impI)
    fix c :: int assume c: "0 < c \<and> c < n + 1 \<and> c \<noteq> n"
    then have "key b (parent c) \<le> key b c" using h unfolding heap_upto_def by simp
    moreover have "0 \<le> parent c" "parent c < n"
      using c parent_nonneg[of c] parent_less[of c] by auto
    ultimately show "key b1 (parent c) \<le> key b1 c" using c k1 by simp
  next
    fix c :: int assume c: "0 < c \<and> c < n + 1 \<and> parent c = n \<and> 0 < n"
    then have False by (auto simp: parent_eq_iff)
    then show "key b1 (parent n) \<le> key b1 c" ..
  qed
  moreover have "0 \<le> n" "n < n + 1" "n + 1 \<le> int (length (pool b1))"
    by (simp_all add: len1) (simp add: n_def)
  ultimately obtain b' where u: "up b1 n = Inr b'" and hb': "heap_upto (key b') (n + 1)"
    using up_heap[of n "n + 1" b1] by blast
  have f: "frame b1 b'" using u by (rule up_frame)
  have "int (length (pool b')) = n + 1" using frame_length[OF f] len1 by simp
  then have "heap_ok b'" using hb' by (simp add: heap_ok_iff)
  moreover have "heap_Push b w = Inr b'"
    using u len1 by (simp add: heap_Push_def Let_def b1_def[symmetric] Pool_Len_def)
  moreover have "mset (pool b') = add_mset w (mset (pool b))"
    using f p1 by (simp add: frame_def)
  moreover have "same_data b b'"
    using sd1 frame_same_data[OF f] by (rule same_data_trans)
  moreover have "pos_ok b'" if "pos_ok b" "w \<notin> set (pool b)"
    using up_pos_ok[OF u] Pool_Push_pos_ok[OF that] by (simp add: b1_def)
  ultimately show ?thesis by blast
qed

lemma Pool_Pop_heap:
  assumes "pool b \<noteq> []" and "heap_upto (key b) (int (length (pool b)) - 1)"
  shows "\<exists>b'. Pool_Pop b = Inr (last (pool b), b') \<and> heap_ok b' \<and>
           pool b = pool b' @ [last (pool b)] \<and> same_data b b' \<and>
           (pos_ok b \<longrightarrow> pos_ok b' \<and> last (pool b) \<notin> set (pool b'))"
proof -
  from Pool_Pop_eq[OF assms(1)] obtain b' where pp: "Pool_Pop b = Inr (last (pool b), b')"
    by blast
  note sp = Pool_Pop_spec[OF pp]
  have p: "pool b = pool b' @ [last (pool b)]" using sp by simp
  have "length (pool b) = Suc (length (pool b'))" by (subst p) simp
  then have len: "int (length (pool b)) - 1 = int (length (pool b'))" by simp
  have k: "key b' c = key b c" if "0 \<le> c" "c < int (length (pool b'))" for c
  proof -
    have "nat c < length (pool b')" using that by (simp add: nat_less_iff)
    then have "pool b ! nat c = pool b' ! nat c" by (subst p) (simp add: nth_append)
    then show ?thesis using sp by (intro same_data_key) simp_all
  qed
  have "heap_upto (key b') (int (length (pool b')))"
    unfolding heap_upto_def
  proof (intro allI impI)
    fix c :: int assume c: "0 < c \<and> c < int (length (pool b'))"
    then have "key b (parent c) \<le> key b c" using assms(2) unfolding heap_upto_def len by simp
    moreover have "0 \<le> parent c" "parent c < int (length (pool b'))"
      using c parent_nonneg[of c] parent_less[of c] by auto
    ultimately show "key b' (parent c) \<le> key b' c" using c k by simp
  qed
  then have "heap_ok b'" by (simp add: heap_ok_iff)
  with pp sp show ?thesis by blast
qed

lemma last_nth_int: "xs \<noteq> [] \<Longrightarrow> last xs = xs ! nat (int (length xs) - 1)"
proof -
  have "nat (int (length xs) - 1) = length xs - 1" by linarith
  then show "xs \<noteq> [] \<Longrightarrow> last xs = xs ! nat (int (length xs) - 1)"
    by (simp add: last_conv_nth)
qed

lemma pop_tail:
  assumes f: "frame b bf" and h: "heap_upto (key bf) (int (length (pool b)) - 1)"
    and ne: "pool b \<noteq> []" and w: "last (pool bf) = w" and ok: "pos_ok b \<longrightarrow> pos_ok bf"
  shows "\<exists>b'. Pool_Pop bf = Inr (w, b') \<and> heap_ok b' \<and>
           mset (pool b) = add_mset w (mset (pool b')) \<and> same_data b b' \<and>
           (pos_ok b \<longrightarrow> pos_ok b' \<and> w \<notin> set (pool b'))"
proof -
  have len: "length (pool bf) = length (pool b)" using f by (rule frame_length)
  then have nef: "pool bf \<noteq> []" using ne by auto
  have h': "heap_upto (key bf) (int (length (pool bf)) - 1)" using h len by simp
  from Pool_Pop_heap[OF nef h'] obtain b' where
    "Pool_Pop bf = Inr (last (pool bf), b') \<and> heap_ok b' \<and>
       pool bf = pool b' @ [last (pool bf)] \<and> same_data bf b' \<and>
       (pos_ok bf \<longrightarrow> pos_ok b' \<and> last (pool bf) \<notin> set (pool b'))" by blast
  then have pp: "Pool_Pop bf = Inr (w, b')" and hb: "heap_ok b'" and p: "pool bf = pool b' @ [w]"
    and sd: "same_data bf b'" and po: "pos_ok bf \<longrightarrow> pos_ok b' \<and> w \<notin> set (pool b')"
    unfolding w by blast+
  have "mset (pool b) = mset (pool bf)" using f by (simp add: frame_def)
  then have "mset (pool b) = add_mset w (mset (pool b'))" by (simp add: p)
  moreover have "same_data b b'" using frame_same_data[OF f] sd by (rule same_data_trans)
  ultimately show ?thesis using pp hb po ok by blast
qed

lemma heap_Pop_spec:
  assumes h: "heap_ok b" and ne: "pool b \<noteq> []"
  shows "\<exists>b'. heap_Pop b = Inr (pool b ! 0, b') \<and> heap_ok b' \<and>
           mset (pool b) = add_mset (pool b ! 0) (mset (pool b')) \<and> same_data b b' \<and>
           (pos_ok b \<longrightarrow> pos_ok b' \<and> pool b ! 0 \<notin> set (pool b'))"
proof -
  define n where "n = int (length (pool b)) - 1"
  have n0: "0 \<le> n" using ne by (simp add: n_def Suc_leI)
  have bn: "in_bounds (pool b) 0" "in_bounds (pool b) n"
    using n0 by (simp_all add: in_bounds_def n_def)
  from Pool_Swap_eq[OF bn] obtain b1 where s: "Pool_Swap b 0 n = Inr b1" by blast
  have len1: "length (pool b1) = length (pool b)" using s by (rule Pool_Swap_length)
  have hk: "heap_upto (key b) (n + 1)" using h by (simp add: heap_ok_iff n_def)
  have inv: "down_inv (key b1) n 0 (- 1)"
    unfolding down_inv_def bridge_def
  proof (intro conjI allI impI)
    fix c :: int assume c: "0 < c \<and> c < n \<and> parent c \<noteq> 0 \<and> c \<noteq> - 1"
    then have pc: "0 \<le> parent c" "parent c < c" by (simp_all add: parent_nonneg parent_less)
    have "key b1 c = key b c" "key b1 (parent c) = key b (parent c)"
      using Pool_Swap_key[OF s, of c] Pool_Swap_key[OF s, of "parent c"] c pc by auto
    moreover have "key b (parent c) \<le> key b c" using hk c unfolding heap_upto_def by simp
    ultimately show "key b1 (parent c) \<le> key b1 c" by simp
  qed simp
  from down_loop_total[of 0 n b1] obtain b2 i' where d: "down_loop b1 0 n = Inr (b2, i')"
    using len1 by (auto simp: n_def)
  from down_loop_heap[OF d _ inv] have "below_children (key b2) n i'"
    and "down_inv (key b2) n i' (- 1)" by (simp_all split: if_splits)
  then have h2: "heap_upto (key b2) n" by (rule down_done) simp
  have f2: "frame b b2" using Pool_Swap_frame[OF s] down_loop_frame[OF d] by (rule frame_trans)
  have len2: "length (pool b2) = length (pool b)" using f2 by (rule frame_length)
  have "pool b2 ! nat n = pool b1 ! nat n" using d by (rule down_loop_above) simp_all
  also have "\<dots> = pool b ! 0"
    using bn by (simp add: Pool_Swap_pool[OF s] in_bounds_def nat_less_iff)
  finally have "pool b2 ! nat n = pool b ! 0" .
  moreover have "pool b2 \<noteq> []" using ne len2 by (cases "pool b2") auto
  ultimately have "last (pool b2) = pool b ! 0"
    using len2 last_nth_int[of "pool b2"] by (simp add: n_def)
  moreover have "pos_ok b \<longrightarrow> pos_ok b2"
    using Pool_Swap_pos_ok[OF s] down_loop_pos_ok[OF d] by blast
  ultimately obtain b' where "Pool_Pop b2 = Inr (pool b ! 0, b')" and r: "heap_ok b'"
    "mset (pool b) = add_mset (pool b ! 0) (mset (pool b'))" "same_data b b'"
    "pos_ok b \<longrightarrow> pos_ok b' \<and> pool b ! 0 \<notin> set (pool b')"
    using pop_tail[OF f2 _ ne, of "pool b ! 0"] h2 by (auto simp: n_def)
  then have "heap_Pop b = Inr (pool b ! 0, b')"
    using s d by (simp add: heap_Pop_def Let_def Pool_Len_def n_def[symmetric] down_def)
  with r show ?thesis by blast
qed

lemma heap_Remove_spec:
  assumes i: "0 \<le> i" "i < int (length (pool b))"
    and inv: "down_inv (key b) (int (length (pool b))) i i"
  shows "\<exists>b'. heap_Remove b i = Inr (pool b ! nat i, b') \<and> heap_ok b' \<and>
           mset (pool b) = add_mset (pool b ! nat i) (mset (pool b')) \<and> same_data b b' \<and>
           (pos_ok b \<longrightarrow> pos_ok b' \<and> pool b ! nat i \<notin> set (pool b'))"
proof -
  define n where "n = int (length (pool b)) - 1"
  define w where "w = pool b ! nat i"
  have ne: "pool b \<noteq> []" using i by auto
  have edge: "\<And>c. 0 < c \<Longrightarrow> c < n + 1 \<Longrightarrow> parent c \<noteq> i \<Longrightarrow> c \<noteq> i \<Longrightarrow>
                 key b (parent c) \<le> key b c"
    using inv unfolding down_inv_def n_def by simp
  have br: "\<And>c. 0 < c \<Longrightarrow> c < n + 1 \<Longrightarrow> parent c = i \<Longrightarrow> 0 < i \<Longrightarrow>
                 key b (parent i) \<le> key b c"
    using inv unfolding down_inv_def bridge_def n_def by simp
  have "\<exists>bf. heap_Remove b i = Pool_Pop bf \<and> frame b bf \<and> heap_upto (key bf) n \<and>
          last (pool bf) = w \<and> (pos_ok b \<longrightarrow> pos_ok bf)"
  proof (cases "n = i")
    case True
    have "heap_upto (key b) n"
      unfolding heap_upto_def
    proof (intro allI impI)
      fix c :: int assume c: "0 < c \<and> c < n"
      then have "parent c < c" by (simp add: parent_less)
      then show "key b (parent c) \<le> key b c" using c True edge[of c] by simp
    qed
    moreover have "last (pool b) = w"
      using True last_nth_int[OF ne] by (simp add: w_def n_def)
    moreover have "heap_Remove b i = Pool_Pop b"
      using True by (simp add: heap_Remove_def Let_def Pool_Len_def n_def)
    ultimately show ?thesis using frame_refl by blast
  next
    case False
    then have "i < n" using i by (simp add: n_def)
    have "n < int (length (pool b))" by (simp add: n_def)
    then have bn: "in_bounds (pool b) i" "in_bounds (pool b) n"
      using i \<open>i < n\<close> by (simp_all add: in_bounds_def)
    from Pool_Swap_eq[OF bn] obtain b1 where s: "Pool_Swap b i n = Inr b1" by blast
    have len1: "length (pool b1) = length (pool b)" using s by (rule Pool_Swap_length)
    have f1: "frame b b1" using s by (rule Pool_Swap_frame)
    have ok1: "pos_ok b \<longrightarrow> pos_ok b1" using Pool_Swap_pos_ok[OF s] by blast
    have w1: "pool b1 ! nat n = w"
      using bn by (simp add: Pool_Swap_pool[OF s] in_bounds_def w_def nat_less_iff)
    have same: "key b1 c = key b c" if "0 \<le> c" "c \<noteq> i" "c \<noteq> n" for c
      using Pool_Swap_key[OF s, of c] that by simp
    have inv1: "down_inv (key b1) n i i"
      unfolding down_inv_def bridge_def
    proof (intro conjI allI impI)
      fix c :: int assume c: "0 < c \<and> c < n \<and> parent c \<noteq> i \<and> c \<noteq> i"
      then have pc: "0 \<le> parent c" "parent c < c" by (simp_all add: parent_nonneg parent_less)
      then have "key b1 c = key b c" "key b1 (parent c) = key b (parent c)"
        using same[of c] same[of "parent c"] c by auto
      then show "key b1 (parent c) \<le> key b1 c" using edge[of c] c by simp
    next
      fix c :: int assume c: "0 < c \<and> c < n \<and> parent c = i \<and> 0 < i"
      then have pc: "0 \<le> parent i" "parent i < i" "i < c"
        using parent_less[of c] by (simp_all add: parent_nonneg parent_less)
      then have "key b1 c = key b c" "key b1 (parent i) = key b (parent i)"
        using same[of c] same[of "parent i"] c \<open>i < n\<close> by auto
      then show "key b1 (parent i) \<le> key b1 c" using br[of c] c by simp
    qed
    from down_loop_total[of i n b1] obtain b2 i' where d: "down_loop b1 i n = Inr (b2, i')"
      using len1 i by (auto simp: n_def)
    have f2: "frame b b2" using f1 down_loop_frame[OF d] by (rule frame_trans)
    have len2: "length (pool b2) = length (pool b)" using f2 by (rule frame_length)
    have ok2: "pos_ok b \<longrightarrow> pos_ok b2" using ok1 down_loop_pos_ok[OF d] by blast
    have w2: "pool b2 ! nat n = w"
      using down_loop_above[OF d i(1), of "nat n"] w1 by simp
    from down_loop_heap[OF d i(1) inv1]
    have r: "i \<le> i'" "i' = i \<longrightarrow> b2 = b1" "below_children (key b2) n i'"
      "down_inv (key b2) n i' (if i' = i then i else - 1)" by simp_all
    have lastn: "last (pool bf) = pool bf ! nat n" if "length (pool bf) = length (pool b)" for bf
    proof -
      have "pool bf \<noteq> []" using ne that by (cases "pool bf") auto
      then show ?thesis using that last_nth_int[of "pool bf"] by (simp add: n_def)
    qed
    show ?thesis
    proof (cases "i < i'")
      case True
      then have "heap_upto (key b2) n" using r by (intro down_done[of _ _ i' "- 1"]) auto
      moreover have "heap_Remove b i = Pool_Pop b2"
        using False s d True
        by (simp add: heap_Remove_def Let_def Pool_Len_def n_def[symmetric] down_def)
      ultimately show ?thesis using f2 ok2 w2 lastn[OF len2] by auto
    next
      case stay: False
      then have eq: "i' = i" "b2 = b1" using r by auto
      have "up_inv (key b1) n i" using r eq by (intro down_stay) simp_all
      then obtain b3 where u: "up b1 i = Inr b3" and h3: "heap_upto (key b3) n"
        using up_heap[of i n b1] i \<open>i < n\<close> len1 by (auto simp: n_def)
      have f3: "frame b b3" using f1 up_frame[OF u] by (rule frame_trans)
      have len3: "length (pool b3) = length (pool b)" using f3 by (rule frame_length)
      have "pool b3 ! nat n = w" using up_above[OF u i(1), of "nat n"] w1 \<open>i < n\<close> i(1) by simp
      moreover have "pos_ok b \<longrightarrow> pos_ok b3" using ok1 up_pos_ok[OF u] by blast
      moreover have "heap_Remove b i = Pool_Pop b3"
        using False s d stay u eq
        by (simp add: heap_Remove_def Let_def Pool_Len_def n_def[symmetric] down_def)
      ultimately show ?thesis using f3 h3 lastn[OF len3] by auto
    qed
  qed
  then obtain bf where "heap_Remove b i = Pool_Pop bf" and f: "frame b bf"
    and hf: "heap_upto (key bf) (int (length (pool b)) - 1)" and "last (pool bf) = w"
    and "pos_ok b \<longrightarrow> pos_ok bf" by (auto simp: n_def)
  with pop_tail[OF f hf ne, of w] show ?thesis by (auto simp: w_def)
qed

subsection \<open>dispatch and completed\<close>

lemma pos_ok_nth: "pos_ok b \<Longrightarrow> i < length (pool b) \<Longrightarrow> idx (mem b (pool b ! i)) = int i"
  by (simp add: pos_ok_def)

lemma pos_ok_mem_cong:
  assumes "pos_ok b" and "pool b' = pool b" and "\<And>a. idx (mem b' a) = idx (mem b a)"
  shows "pos_ok b'"
  using assms by (simp add: pos_ok_def)

lemma heap_ok_cong:
  assumes "heap_ok b" and "pool b' = pool b"
    and "\<And>a. a \<in> set (pool b) \<Longrightarrow> pending (mem b' a) = pending (mem b a)"
  shows "heap_ok b'"
  unfolding heap_ok_def
proof
  fix i assume i: "i \<in> {1..<length (pool b')}"
  then have "i < length (pool b)" "(i - 1) div 2 < length (pool b)"
    using assms(2) by auto
  then have "pool b ! i \<in> set (pool b)" "pool b ! ((i - 1) div 2) \<in> set (pool b)" by simp_all
  then show "pending (mem b' (pool b' ! ((i - 1) div 2))) \<le> pending (mem b' (pool b' ! i))"
    using assms i unfolding heap_ok_def by simp
qed

lemma dispatch_spec:
  assumes h: "heap_ok b" and ok: "pos_ok b" and ne: "pool b \<noteq> []"
  shows "\<exists>b'. dispatch b req = Inr b' \<and> heap_ok b' \<and> pos_ok b' \<and>
           mset (pool b') = mset (pool b) \<and>
           (\<forall>a. pending (mem b' a) =
                  (if a = pool b ! 0 then pending (mem b a) + 1 else pending (mem b a))) \<and>
           (\<forall>a. work (mem b' a) =
                  (if a = pool b ! 0 then work (mem b a) @ [req] else work (mem b a)))"
proof -
  define w where "w = pool b ! 0"
  from heap_Pop_spec[OF h ne] ok obtain b1 where
    p: "heap_Pop b = Inr (w, b1)" and h1: "heap_ok b1"
    and m1: "mset (pool b) = add_mset w (mset (pool b1))" and sd1: "same_data b b1"
    and ok1: "pos_ok b1" and nw: "w \<notin> set (pool b1)"
    unfolding w_def by blast
  define b2 where "b2 = b1\<lparr>mem := add_pending w 1 (send_work w req (mem b1))\<rparr>"
  have p2: "pool b2 = pool b1" by (simp add: b2_def)
  have h2: "heap_ok b2"
    using h1 p2
  proof (rule heap_ok_cong)
    fix a assume "a \<in> set (pool b1)"
    with nw have "a \<noteq> w" by auto
    then show "pending (mem b2 a) = pending (mem b1 a)"
      by (simp add: b2_def add_pending_def send_work_def)
  qed
  have ok2: "pos_ok b2"
    using ok1 p2 by (rule pos_ok_mem_cong) (simp add: b2_def add_pending_def send_work_def)
  from heap_Push_spec[OF h2, of w] ok2 nw p2 obtain b' where
    q: "heap_Push b2 w = Inr b'" and h': "heap_ok b'"
    and m': "mset (pool b') = add_mset w (mset (pool b2))" and sd': "same_data b2 b'"
    and ok': "pos_ok b'"
    by auto
  have "dispatch b req = Inr b'" using p q by (simp add: dispatch_def b2_def)
  moreover have "mset (pool b') = mset (pool b)" using m' m1 p2 by simp
  moreover have "pending (mem b' a) = (if a = w then pending (mem b a) + 1 else pending (mem b a))"
    for a using sd1 sd' by (simp add: same_data_def b2_def add_pending_def send_work_def)
  moreover have "work (mem b' a) = (if a = w then work (mem b a) @ [req] else work (mem b a))"
    for a using sd1 sd' by (simp add: same_data_def b2_def add_pending_def send_work_def)
  ultimately show ?thesis using h' ok' unfolding w_def by blast
qed

lemma completed_spec:
  assumes h: "heap_ok b" and ok: "pos_ok b" and w: "w \<in> set (pool b)"
  shows "\<exists>b'. completed b w = Inr b' \<and> heap_ok b' \<and> pos_ok b' \<and>
           mset (pool b') = mset (pool b) \<and>
           (\<forall>a. pending (mem b' a) =
                  (if a = w then pending (mem b a) - 1 else pending (mem b a))) \<and>
           (\<forall>a. work (mem b' a) = work (mem b a))"
proof -
  define n where "n = int (length (pool b))"
  from w obtain p where p: "p < length (pool b)" "pool b ! p = w"
    by (auto simp: in_set_conv_nth)
  define i where "i = int p"
  have i: "0 \<le> i" "i < n" "nat i = p" using p by (simp_all add: i_def n_def)
  have d: "distinct (pool b)" using ok by (simp add: pos_ok_def)
  define b1 where "b1 = b\<lparr>mem := add_pending w (- 1) (mem b)\<rparr>"
  have p1: "pool b1 = pool b" by (simp add: b1_def)
  have idx1: "idx (mem b1 w) = i"
    using pos_ok_nth[OF ok p(1)] p(2) by (simp add: b1_def add_pending_def i_def)
  have ok1: "pos_ok b1"
    using ok p1 by (rule pos_ok_mem_cong) (simp add: b1_def add_pending_def)
  have k1: "key b1 c = key b c" if "0 \<le> c" "c < n" "c \<noteq> i" for c
  proof -
    have "nat c < length (pool b)" "nat c \<noteq> p" using that i by (auto simp: n_def)
    then have "pool b ! nat c \<noteq> w" using d p by (auto simp: nth_eq_iff_index_eq)
    then show ?thesis by (simp add: key_def b1_def add_pending_def)
  qed
  have ki: "key b1 i = key b i - 1" using i p by (simp add: key_def b1_def add_pending_def)
  have hk: "heap_upto (key b) n" using h by (simp add: heap_ok_iff n_def)
  have inv: "down_inv (key b1) (int (length (pool b1))) i i"
    unfolding down_inv_def bridge_def p1 n_def[symmetric]
  proof (intro conjI allI impI)
    fix c :: int assume c: "0 < c \<and> c < n \<and> parent c \<noteq> i \<and> c \<noteq> i"
    then have pc: "0 \<le> parent c" "parent c < c" by (simp_all add: parent_nonneg parent_less)
    then have "key b1 c = key b c" "key b1 (parent c) = key b (parent c)"
      using k1[of c] k1[of "parent c"] c by auto
    then show "key b1 (parent c) \<le> key b1 c" using hk c unfolding heap_upto_def by simp
  next
    fix c :: int assume c: "0 < c \<and> c < n \<and> parent c = i \<and> 0 < i"
    then have pc: "0 \<le> parent i" "parent i < i" "i < c"
      using parent_less[of c] by (simp_all add: parent_nonneg parent_less)
    then have "key b1 c = key b c" "key b1 (parent i) = key b (parent i)"
      using k1[of c] k1[of "parent i"] c i by auto
    moreover have "key b (parent i) \<le> key b i" "key b i \<le> key b c"
      using hk c i unfolding heap_upto_def by auto
    ultimately show "key b1 (parent i) \<le> key b1 c" by simp
  qed
  have "i < int (length (pool b1))" using i by (simp add: p1 n_def)
  from heap_Remove_spec[OF i(1) this inv] ok1 obtain b2 where
    r: "heap_Remove b1 i = Inr (w, b2)" and h2: "heap_ok b2"
    and m2: "mset (pool b1) = add_mset w (mset (pool b2))" and sd2: "same_data b1 b2"
    and ok2: "pos_ok b2" and nw: "w \<notin> set (pool b2)"
    unfolding p1 i(3) p(2) by blast
  from heap_Push_spec[OF h2, of w] ok2 nw obtain b' where
    q: "heap_Push b2 w = Inr b'" and h': "heap_ok b'"
    and m': "mset (pool b') = add_mset w (mset (pool b2))" and sd': "same_data b2 b'"
    and ok': "pos_ok b'"
    by auto
  have "completed b w = Inr b'"
    using r q idx1 by (simp add: completed_def Let_def b1_def[symmetric])
  moreover have "mset (pool b') = mset (pool b)" using m' m2 p1 by simp
  moreover have "pending (mem b' a) = (if a = w then pending (mem b a) - 1 else pending (mem b a))"
    for a using sd2 sd' by (simp add: same_data_def b1_def add_pending_def)
  moreover have "work (mem b' a) = work (mem b a)"
    for a using sd2 sd' by (simp add: same_data_def b1_def add_pending_def)
  ultimately show ?thesis using h' ok' by blast
qed

subsection \<open>Runs of balance\<close>

lemma total_pending_mset:
  "total_pending b = sum_mset (image_mset (\<lambda>a. pending (mem b a)) (mset (pool b)))"
  by (simp add: total_pending_def flip: sum_mset_sum_list)

lemma sum_mset_bump:
  fixes f :: "'a \<Rightarrow> int"
  shows "sum_mset (image_mset (\<lambda>a. if a = w then f a + d else f a) M) =
         sum_mset (image_mset f M) + int (count M w) * d"
  by (induction M) (auto simp: algebra_simps)

lemma total_pending_bump:
  assumes "mset (pool b') = mset (pool b)" and "distinct (pool b)" and "w \<in> set (pool b)"
    and "\<And>a. pending (mem b' a) = (if a = w then pending (mem b a) + d else pending (mem b a))"
  shows "total_pending b' = total_pending b + d"
proof -
  have "count (mset (pool b)) w = 1" using assms(2,3) by (simp add: distinct_count_atmost_1)
  then have "sum_mset (image_mset (\<lambda>a. if a = w then pending (mem b a) + d
                                       else pending (mem b a)) (mset (pool b))) =
             sum_mset (image_mset (\<lambda>a. pending (mem b a)) (mset (pool b))) + d"
    by (simp only: sum_mset_bump)
  then show ?thesis
    unfolding total_pending_mset assms(1) assms(4) .
qed

lemma handle_spec:
  assumes "pool_inv b" and "from_pool b e"
  shows "\<exists>b'. handle b e = Inr b' \<and> pool_inv b' \<and> mset (pool b') = mset (pool b) \<and>
           total_pending b' = total_pending b + (if is_Arrive e then 1 else - 1)"
proof (cases e)
  case (Arrive req)
  from assms have h: "heap_ok b" and ok: "pos_ok b" and ne: "pool b \<noteq> []"
    by (simp_all add: pool_inv_def)
  from dispatch_spec[OF h ok ne, of req] obtain b' where
    d: "dispatch b req = Inr b'" and i: "heap_ok b'" "pos_ok b'"
    and m: "mset (pool b') = mset (pool b)"
    and p: "\<And>a. pending (mem b' a) =
              (if a = pool b ! 0 then pending (mem b a) + 1 else pending (mem b a))"
    by blast
  have "pool b' \<noteq> []" using m ne by (metis mset_zero_iff)
  moreover have "total_pending b' = total_pending b + 1"
    using m _ _ p
  proof (rule total_pending_bump)
    show "distinct (pool b)" using ok by (simp add: pos_ok_def)
    show "pool b ! 0 \<in> set (pool b)" using ne by simp
  qed
  ultimately show ?thesis using Arrive d i m by (simp add: pool_inv_def)
next
  case (Finish w)
  from assms have h: "heap_ok b" and ok: "pos_ok b" and ne: "pool b \<noteq> []"
    by (simp_all add: pool_inv_def)
  have w: "w \<in> set (pool b)" using assms(2) Finish by simp
  from completed_spec[OF h ok w] obtain b' where
    d: "completed b w = Inr b'" and i: "heap_ok b'" "pos_ok b'"
    and m: "mset (pool b') = mset (pool b)"
    and p: "\<And>a. pending (mem b' a) =
              (if a = w then pending (mem b a) - 1 else pending (mem b a))"
    by blast
  have "pool b' \<noteq> []" using m ne by (metis mset_zero_iff)
  moreover have "total_pending b' = total_pending b + (- 1)"
    using m _ w
  proof (rule total_pending_bump)
    show "distinct (pool b)" using ok by (simp add: pos_ok_def)
    show "pending (mem b' a) = (if a = w then pending (mem b a) + - 1 else pending (mem b a))"
      for a using p[of a] by simp
  qed
  ultimately show ?thesis using Finish d i m by (simp add: pool_inv_def)
qed

lemma from_pool_cong: "set (pool b') = set (pool b) \<Longrightarrow> from_pool b' e = from_pool b e"
  by (cases e) simp_all

lemma balance_spec:
  assumes "pool_inv b" and "list_all (from_pool b) es"
  shows "\<exists>b'. balance b es = Inr b' \<and> pool_inv b' \<and> mset (pool b') = mset (pool b) \<and>
           total_pending b' = total_pending b + dispatched es - finished es"
  using assms
proof (induction es arbitrary: b)
  case Nil
  then show ?case by (simp add: dispatched_def finished_def)
next
  case (Cons e es)
  from Cons.prems have e: "from_pool b e" and es: "list_all (from_pool b) es" by simp_all
  from handle_spec[OF Cons.prems(1) e] obtain b1 where
    s: "handle b e = Inr b1" and i1: "pool_inv b1" and m1: "mset (pool b1) = mset (pool b)"
    and t1: "total_pending b1 = total_pending b + (if is_Arrive e then 1 else - 1)"
    by blast
  have "set (pool b1) = set (pool b)" using m1 by (rule mset_eq_setD)
  then have "from_pool b1 = from_pool b" by (intro ext from_pool_cong)
  then have "list_all (from_pool b1) es" using es by simp
  from Cons.IH[OF i1 this] obtain b' where
    r: "balance b1 es = Inr b'" and i': "pool_inv b'" and m': "mset (pool b') = mset (pool b1)"
    and t': "total_pending b' = total_pending b1 + dispatched es - finished es"
    by blast
  have "balance b (e # es) = Inr b'" using s r by simp
  moreover have "total_pending b' = total_pending b + dispatched (e # es) - finished (e # es)"
    using t1 t' by (simp add: dispatched_def finished_def)
  ultimately show ?case using i' m' m1 by auto
qed

subsection \<open>newLoadBalancer and whole runs\<close>

lemma heap_ok_all_zero:
  assumes "\<And>a. pending (mem b a) = 0"
  shows "heap_ok b"
  using assms by (simp add: heap_ok_def)

lemma newLoadBalancer_loop_spec:
  assumes "pos_ok b" and "\<And>x. pending (mem b x) = 0 \<and> work (mem b x) = []"
    and "set (pool b) \<subseteq> {..<a}"
  shows "\<exists>b'. newLoadBalancer_loop k a b = Inr b' \<and> pos_ok b' \<and>
           (\<forall>x. pending (mem b' x) = 0 \<and> work (mem b' x) = []) \<and>
           mset (pool b') = mset (pool b) + mset [a..<a + k]"
  using assms
proof (induction k arbitrary: a b)
  case 0
  then show ?case by simp
next
  case (Suc k)
  define b0 where "b0 = b\<lparr>mem := (mem b)(a := new_Worker)\<rparr>"
  have z0: "pending (mem b0 x) = 0 \<and> work (mem b0 x) = []" for x
    using Suc.prems(2) by (simp add: b0_def new_Worker_def)
  have na: "a \<notin> set (pool b0)" using Suc.prems(3) by (auto simp: b0_def)
  have ok0: "pos_ok b0"
    unfolding pos_ok_def
  proof (intro conjI ballI)
    show "distinct (pool b0)" using Suc.prems(1) by (simp add: pos_ok_def b0_def)
    fix i assume i: "i \<in> {0..<length (pool b0)}"
    then have "pool b ! i \<noteq> a" using na by (auto simp: b0_def)
    then show "idx (mem b0 (pool b0 ! i)) = int i"
      using pos_ok_nth[OF Suc.prems(1), of i] i by (simp add: b0_def)
  qed
  have h0: "heap_ok b0" by (rule heap_ok_all_zero) (simp add: z0)
  from heap_Push_spec[OF h0, of a] ok0 na obtain b1 where
    p: "heap_Push b0 a = Inr b1" and m1: "mset (pool b1) = add_mset a (mset (pool b0))"
    and sd: "same_data b0 b1" and ok1: "pos_ok b1"
    by blast
  have z1: "pending (mem b1 x) = 0 \<and> work (mem b1 x) = []" for x
    using sd z0 by (simp add: same_data_def)
  have "set_mset (mset (pool b1)) = insert a (set (pool b))"
    unfolding m1 by (simp add: b0_def)
  then have s1: "set (pool b1) \<subseteq> {..<Suc a}" using Suc.prems(3) by auto
  from Suc.IH[OF ok1 z1 s1] obtain b' where
    r: "newLoadBalancer_loop k (Suc a) b1 = Inr b'" and ok': "pos_ok b'"
    and z': "\<forall>x. pending (mem b' x) = 0 \<and> work (mem b' x) = []"
    and m': "mset (pool b') = mset (pool b1) + mset [Suc a..<Suc a + k]"
    by blast
  have "newLoadBalancer_loop (Suc k) a b = Inr b'" using p r by (simp add: b0_def)
  moreover have "[a..<a + Suc k] = a # [Suc a..<Suc a + k]"
    by (simp add: upt_conv_Cons del: upt_Suc)
  then have "mset (pool b') = mset (pool b) + mset [a..<a + Suc k]"
    using m' m1 by (simp add: b0_def del: upt_Suc)
  ultimately show ?case using ok' z' by blast
qed

lemma newLoadBalancer_of_spec:
  "\<exists>b. newLoadBalancer_of n = Inr b \<and> heap_ok b \<and> pos_ok b \<and>
       mset (pool b) = mset [0..<n] \<and> (\<forall>x. pending (mem b x) = 0 \<and> work (mem b x) = [])"
proof -
  have "pos_ok empty_LoadBalancer" by (simp add: pos_ok_def empty_LoadBalancer_def)
  moreover have "pending (mem empty_LoadBalancer x) = 0 \<and> work (mem empty_LoadBalancer x) = []"
    for x by (simp add: empty_LoadBalancer_def new_Worker_def)
  moreover have "set (pool empty_LoadBalancer) \<subseteq> {..<0}" by (simp add: empty_LoadBalancer_def)
  ultimately obtain b where
    "newLoadBalancer_loop n 0 empty_LoadBalancer = Inr b" "pos_ok b"
    "\<forall>x. pending (mem b x) = 0 \<and> work (mem b x) = []"
    "mset (pool b) = mset (pool empty_LoadBalancer) + mset [0..<0 + n]"
    using newLoadBalancer_loop_spec[of empty_LoadBalancer 0 n] by blast
  moreover from this have "heap_ok b" by (intro heap_ok_all_zero) simp
  ultimately show ?thesis
    by (simp add: newLoadBalancer_of_def) (simp add: empty_LoadBalancer_def)
qed

lemma pool_of_mset_upt:
  assumes "mset (pool b) = mset [0..<n]"
  shows "length (pool b) = n" and "set (pool b) = {..<n}"
proof -
  have "size (mset (pool b)) = size (mset [0..<n])" by (simp only: assms)
  then show "length (pool b) = n" by simp
  have "set (pool b) = set [0..<n]" using assms by (rule mset_eq_setD)
  then show "set (pool b) = {..<n}" by (simp only: set_upt atLeast0LessThan)
qed

lemma known_worker_from_pool:
  "set (pool b) = {..<n} \<Longrightarrow> from_pool b = known_worker n"
proof (rule ext)
  fix e assume "set (pool b) = {..<n}"
  then show "from_pool b e = known_worker n e" by (cases e) simp_all
qed

lemma main_of_spec:
  assumes "0 < n" and "list_all (known_worker n) es"
  shows "\<exists>b. main_of n es = Inr b \<and> pool_inv b \<and> mset (pool b) = mset [0..<n] \<and>
           total_pending b = dispatched es - finished es"
proof -
  from newLoadBalancer_of_spec[of n] obtain b0 where
    i: "newLoadBalancer_of n = Inr b0" and h: "heap_ok b0" "pos_ok b0"
    and m: "mset (pool b0) = mset [0..<n]" and z: "\<forall>x. pending (mem b0 x) = 0 \<and> work (mem b0 x) = []"
    by blast
  have "pool b0 \<noteq> []" using pool_of_mset_upt(1)[OF m] assms(1) by auto
  then have inv: "pool_inv b0" using h by (simp add: pool_inv_def)
  have "list_all (from_pool b0) es"
    using assms(2) known_worker_from_pool[OF pool_of_mset_upt(2)[OF m]] by simp
  from balance_spec[OF inv this] obtain b where
    r: "balance b0 es = Inr b" "pool_inv b" "mset (pool b) = mset (pool b0)"
    "total_pending b = total_pending b0 + dispatched es - finished es" by blast
  have "total_pending b0 = 0" using z by (simp add: total_pending_def)
  then show ?thesis using r i m by (simp add: main_of_def)
qed

subsection \<open>The operations without the heap property\<close>

text \<open>
  What the operations do on any pool, a min-heap or not: they return whenever their
  indices are in range, keep the workers' data and move the workers they should.
\<close>

lemma up_total:
  "0 \<le> j \<Longrightarrow> j < int (length (pool b)) \<Longrightarrow> \<exists>b'. up b j = Inr b'"
proof (induction b j rule: up.induct)
  case (1 b j)
  show ?case
  proof (cases "j = 0")
    case True
    then show ?thesis by (subst up.simps) (simp add: signed_divide_int_def)
  next
    case False
    then have j: "0 < j" using "1.prems" by simp
    have sp: "(j - 1) sdiv 2 = parent j" using j by (rule sdiv_parent)
    have pj: "0 \<le> parent j" "parent j < j" using j by (simp_all add: parent_nonneg parent_less)
    have ne: "(j - 1) sdiv 2 \<noteq> j" using sp pj by simp
    have bj: "in_bounds (pool b) j" "in_bounds (pool b) (parent j)"
      using pj "1.prems" by (simp_all add: in_bounds_def)
    have l: "Pool_Less b j ((j - 1) sdiv 2) = Inr (key b j < key b (parent j))"
      using Pool_Less_eq[OF bj] sp by simp
    show ?thesis
    proof (cases "key b j < key b (parent j)")
      case False
      then show ?thesis using ne l by (subst up.simps) (simp add: Let_def)
    next
      case True
      from Pool_Swap_eq[OF bj(2) bj(1)] obtain b1 where s: "Pool_Swap b (parent j) j = Inr b1"
        by blast
      have len: "length (pool b1) = length (pool b)" using s by (rule Pool_Swap_length)
      have "\<exists>b'. up b1 (parent j) = Inr b'"
        using "1.IH"[OF refl ne l _ , of b1] True s sp pj "1.prems" len by simp
      moreover have "up b j = up b1 (parent j)"
        using True ne l s sp by (subst up.simps) (simp add: Let_def)
      ultimately show ?thesis by simp
    qed
  qed
qed

lemma heap_Push_total:
  "\<exists>b'. heap_Push b w = Inr b' \<and> mset (pool b') = add_mset w (mset (pool b)) \<and>
        same_data b b' \<and> (pos_ok b \<longrightarrow> w \<notin> set (pool b) \<longrightarrow> pos_ok b')"
proof -
  define b1 where "b1 = Pool_Push b w"
  have p1: "pool b1 = pool b @ [w]" by (simp add: b1_def Pool_Push_pool)
  have len1: "Pool_Len b1 - 1 = int (length (pool b))" by (simp add: Pool_Len_def p1)
  have "int (length (pool b)) < int (length (pool b1))" by (simp add: p1)
  then obtain b' where u: "up b1 (int (length (pool b))) = Inr b'"
    using up_total[of "int (length (pool b))" b1] by auto
  have f: "frame b1 b'" using u by (rule up_frame)
  have "heap_Push b w = Inr b'"
    using u len1 by (simp add: heap_Push_def Let_def b1_def[symmetric])
  moreover have "mset (pool b') = add_mset w (mset (pool b))" using f p1 by (simp add: frame_def)
  moreover have "same_data b b'"
    using Pool_Push_same_data[of b w] frame_same_data[OF f] unfolding b1_def[symmetric]
    by (rule same_data_trans)
  moreover have "pos_ok b'" if "pos_ok b" "w \<notin> set (pool b)"
    using up_pos_ok[OF u] Pool_Push_pos_ok[OF that] by (simp add: b1_def)
  ultimately show ?thesis by blast
qed

lemma pop_tail_total:
  assumes f: "frame b bf" and ne: "pool b \<noteq> []" and w: "last (pool bf) = w"
    and ok: "pos_ok b \<longrightarrow> pos_ok bf"
  shows "\<exists>b'. Pool_Pop bf = Inr (w, b') \<and>
           mset (pool b) = add_mset w (mset (pool b')) \<and> same_data b b' \<and>
           (pos_ok b \<longrightarrow> pos_ok b' \<and> w \<notin> set (pool b'))"
proof -
  have len: "length (pool bf) = length (pool b)" using f by (rule frame_length)
  then have nef: "pool bf \<noteq> []" using ne by (cases "pool bf") auto
  from Pool_Pop_eq[OF nef] obtain b' where pp: "Pool_Pop bf = Inr (w, b')"
    unfolding w by blast
  note sp = Pool_Pop_spec[OF pp]
  have "mset (pool b) = mset (pool bf)" using f by (simp add: frame_def)
  also have "\<dots> = add_mset w (mset (pool b'))" using sp by simp
  finally have "mset (pool b) = add_mset w (mset (pool b'))" .
  moreover have "same_data b b'" using frame_same_data[OF f] sp by (blast intro: same_data_trans)
  ultimately show ?thesis using pp sp ok by blast
qed

lemma heap_Remove_total:
  assumes i: "in_bounds (pool b) i"
  shows "\<exists>b'. heap_Remove b i = Inr (pool b ! nat i, b') \<and>
           mset (pool b) = add_mset (pool b ! nat i) (mset (pool b')) \<and> same_data b b' \<and>
           (pos_ok b \<longrightarrow> pos_ok b' \<and> pool b ! nat i \<notin> set (pool b'))"
proof -
  define n where "n = int (length (pool b)) - 1"
  define w where "w = pool b ! nat i"
  have i0: "0 \<le> i" "i < int (length (pool b))" using i by (simp_all add: in_bounds_def)
  have ne: "pool b \<noteq> []" using i0 by auto
  have lastn: "last (pool bf) = pool bf ! nat n" if "length (pool bf) = length (pool b)" for bf
  proof -
    have "pool bf \<noteq> []" using ne that by (cases "pool bf") auto
    then show ?thesis using that last_nth_int[of "pool bf"] by (simp add: n_def)
  qed
  have "\<exists>bf. heap_Remove b i = Pool_Pop bf \<and> frame b bf \<and> last (pool bf) = w \<and>
          (pos_ok b \<longrightarrow> pos_ok bf)"
  proof (cases "n = i")
    case True
    have "last (pool b) = w" using True lastn[of b] by (simp add: w_def)
    moreover have "heap_Remove b i = Pool_Pop b"
      using True by (simp add: heap_Remove_def Let_def Pool_Len_def n_def)
    ultimately show ?thesis using frame_refl by blast
  next
    case False
    then have "i < n" using i0 by (simp add: n_def)
    have "n < int (length (pool b))" by (simp add: n_def)
    then have bn: "in_bounds (pool b) n" using i0 \<open>i < n\<close> by (simp add: in_bounds_def)
    from Pool_Swap_eq[OF i bn] obtain b1 where s: "Pool_Swap b i n = Inr b1" by blast
    have len1: "length (pool b1) = length (pool b)" using s by (rule Pool_Swap_length)
    have f1: "frame b b1" using s by (rule Pool_Swap_frame)
    have ok1: "pos_ok b \<longrightarrow> pos_ok b1" using Pool_Swap_pos_ok[OF s] by blast
    have w1: "pool b1 ! nat n = w"
      using i bn by (simp add: Pool_Swap_pool[OF s] in_bounds_def w_def nat_less_iff)
    from down_loop_total[of i n b1] obtain b2 i' where d: "down_loop b1 i n = Inr (b2, i')"
      using len1 i0 by (auto simp: n_def)
    have f2: "frame b b2" using f1 down_loop_frame[OF d] by (rule frame_trans)
    have len2: "length (pool b2) = length (pool b)" using f2 by (rule frame_length)
    have ok2: "pos_ok b \<longrightarrow> pos_ok b2" using ok1 down_loop_pos_ok[OF d] by blast
    have w2: "pool b2 ! nat n = w"
      using down_loop_above[OF d i0(1), of "nat n"] w1 by simp
    show ?thesis
    proof (cases "i < i'")
      case True
      then have "heap_Remove b i = Pool_Pop b2"
        using False s d
        by (simp add: heap_Remove_def Let_def Pool_Len_def n_def[symmetric] down_def)
      then show ?thesis using f2 ok2 w2 lastn[OF len2] by auto
    next
      case stay: False
      have "i < int (length (pool b2))" using i0 len2 by simp
      from up_total[OF i0(1) this] obtain b3 where u: "up b2 i = Inr b3" by blast
      have f3: "frame b b3" using f2 up_frame[OF u] by (rule frame_trans)
      have len3: "length (pool b3) = length (pool b)" using f3 by (rule frame_length)
      have "pool b3 ! nat n = w"
        using up_above[OF u i0(1), of "nat n"] w2 \<open>i < n\<close> i0(1) by simp
      moreover have "pos_ok b \<longrightarrow> pos_ok b3" using ok2 up_pos_ok[OF u] by blast
      moreover have "heap_Remove b i = Pool_Pop b3"
        using False s d stay u
        by (simp add: heap_Remove_def Let_def Pool_Len_def n_def[symmetric] down_def)
      ultimately show ?thesis using f3 lastn[OF len3] by auto
    qed
  qed
  then obtain bf where "heap_Remove b i = Pool_Pop bf" and f: "frame b bf"
    and "last (pool bf) = w" and "pos_ok b \<longrightarrow> pos_ok bf" by blast
  with pop_tail_total[OF f ne, of w] show ?thesis by (auto simp: w_def)
qed

lemma heap_Remove_out_of_range:
  assumes "\<not> in_bounds (pool b) i"
  shows "heap_Remove b i = Inl IndexOutOfRange"
proof (cases "int (length (pool b)) - 1 = i")
  case True
  with assms have "pool b = []" by (auto simp: in_bounds_def)
  then show ?thesis
    using True by (simp add: heap_Remove_def Let_def Pool_Len_def Pool_Pop_empty)
next
  case False
  moreover have "Pool_Swap b i (int (length (pool b)) - 1) = Inl IndexOutOfRange"
    using assms by (simp add: Pool_Swap_def)
  ultimately show ?thesis by (simp add: heap_Remove_def Let_def Pool_Len_def)
qed

lemma heap_Pop_empty: "pool b = [] \<Longrightarrow> heap_Pop b = Inl IndexOutOfRange"
  by (simp add: heap_Pop_def Let_def Pool_Len_def Pool_Swap_def in_bounds_def)

lemma heap_Pop_total:
  assumes ne: "pool b \<noteq> []"
  shows "\<exists>w b'. heap_Pop b = Inr (w, b') \<and> mset (pool b) = add_mset w (mset (pool b')) \<and>
           same_data b b' \<and> (pos_ok b \<longrightarrow> pos_ok b' \<and> w \<notin> set (pool b'))"
proof -
  define n where "n = int (length (pool b)) - 1"
  have n0: "0 \<le> n" using ne by (simp add: n_def Suc_leI)
  have bn: "in_bounds (pool b) 0" "in_bounds (pool b) n"
    using n0 by (simp_all add: in_bounds_def n_def)
  from Pool_Swap_eq[OF bn] obtain b1 where s: "Pool_Swap b 0 n = Inr b1" by blast
  have len1: "length (pool b1) = length (pool b)" using s by (rule Pool_Swap_length)
  from down_loop_total[of 0 n b1] obtain b2 i' where d: "down_loop b1 0 n = Inr (b2, i')"
    using len1 by (auto simp: n_def)
  have f2: "frame b b2" using Pool_Swap_frame[OF s] down_loop_frame[OF d] by (rule frame_trans)
  have ok2: "pos_ok b \<longrightarrow> pos_ok b2"
    using Pool_Swap_pos_ok[OF s] down_loop_pos_ok[OF d] by blast
  from pop_tail_total[OF f2 ne refl ok2] obtain b' where
    "Pool_Pop b2 = Inr (last (pool b2), b')" and r: "mset (pool b) = add_mset (last (pool b2)) (mset (pool b'))"
    "same_data b b'" "pos_ok b \<longrightarrow> pos_ok b' \<and> last (pool b2) \<notin> set (pool b')" by blast
  then have "heap_Pop b = Inr (last (pool b2), b')"
    using s d by (simp add: heap_Pop_def Let_def Pool_Len_def n_def[symmetric] down_def)
  with r show ?thesis by blast
qed

subsection \<open>Further facts about dispatch, completed and runs\<close>

lemma pos_ok_lookup:
  assumes "pos_ok b" and "w \<in> set (pool b)"
  shows "in_bounds (pool b) (idx (mem b w)) \<and> pool b ! nat (idx (mem b w)) = w"
proof -
  from assms(2) obtain p where p: "p < length (pool b)" "pool b ! p = w"
    by (auto simp: in_set_conv_nth)
  then have "idx (mem b w) = int p" using pos_ok_nth[OF assms(1) p(1)] by simp
  then show ?thesis using p by (simp add: in_bounds_def)
qed

lemma list_all_take: "list_all P xs \<Longrightarrow> list_all P (take k xs)"
  by (auto simp: list_all_iff dest: in_set_takeD)

lemma heap_ok_root_least:
  assumes "heap_ok b" and "a \<in> set (pool b)"
  shows "pending (mem b (pool b ! 0)) \<le> pending (mem b a)"
proof -
  from assms(2) obtain p where p: "p < length (pool b)" "pool b ! p = a"
    by (auto simp: in_set_conv_nth)
  have "heap_upto (key b) (int (length (pool b)))" using assms(1) by (simp add: heap_ok_iff)
  from heap_upto_root_least[OF this, of "int p"] p show ?thesis by (simp add: key_def)
qed

lemma dispatch_total:
  assumes h: "heap_ok b" and ne: "pool b \<noteq> []"
  shows "\<exists>b'. dispatch b req = Inr b' \<and> mset (pool b') = mset (pool b) \<and>
           (\<forall>a. pending (mem b' a) =
                  (if a = pool b ! 0 then pending (mem b a) + 1 else pending (mem b a))) \<and>
           (\<forall>a. work (mem b' a) =
                  (if a = pool b ! 0 then work (mem b a) @ [req] else work (mem b a)))"
proof -
  define w where "w = pool b ! 0"
  from heap_Pop_spec[OF h ne] obtain b1 where
    p: "heap_Pop b = Inr (w, b1)"
    and m1: "mset (pool b) = add_mset w (mset (pool b1))" and sd1: "same_data b b1"
    unfolding w_def by blast
  define b2 where "b2 = b1\<lparr>mem := add_pending w 1 (send_work w req (mem b1))\<rparr>"
  have p2: "pool b2 = pool b1" by (simp add: b2_def)
  from heap_Push_total[of b2 w] obtain b' where
    q: "heap_Push b2 w = Inr b'"
    and m': "mset (pool b') = add_mset w (mset (pool b2))" and sd': "same_data b2 b'"
    by blast
  have "dispatch b req = Inr b'" using p q by (simp add: dispatch_def b2_def)
  moreover have "mset (pool b') = mset (pool b)" using m' m1 p2 by simp
  moreover have "pending (mem b' a) = (if a = w then pending (mem b a) + 1 else pending (mem b a))"
    for a using sd1 sd' by (simp add: same_data_def b2_def add_pending_def send_work_def)
  moreover have "work (mem b' a) = (if a = w then work (mem b a) @ [req] else work (mem b a))"
    for a using sd1 sd' by (simp add: same_data_def b2_def add_pending_def send_work_def)
  ultimately show ?thesis unfolding w_def by blast
qed

lemma completed_total:
  assumes "in_bounds (pool b) (idx (mem b w))"
  shows "\<exists>b'. completed b w = Inr b' \<and>
           mset (pool b') = add_mset w (mset (pool b) - {#pool b ! nat (idx (mem b w))#}) \<and>
           (\<forall>a. pending (mem b' a) =
                  (if a = w then pending (mem b a) - 1 else pending (mem b a)))"
proof -
  define b1 where "b1 = b\<lparr>mem := add_pending w (- 1) (mem b)\<rparr>"
  define i where "i = idx (mem b w)"
  have p1: "pool b1 = pool b" and i1: "idx (mem b1 w) = i"
    by (simp_all add: b1_def add_pending_def i_def)
  have "in_bounds (pool b1) i" using assms by (simp add: p1 i_def)
  from heap_Remove_total[OF this] obtain b2 where
    r: "heap_Remove b1 i = Inr (pool b ! nat i, b2)"
    and m2: "mset (pool b) = add_mset (pool b ! nat i) (mset (pool b2))"
    and sd2: "same_data b1 b2"
    unfolding p1 by blast
  from heap_Push_total[of b2 w] obtain b' where
    q: "heap_Push b2 w = Inr b'"
    and m': "mset (pool b') = add_mset w (mset (pool b2))" and sd': "same_data b2 b'"
    by blast
  have "completed b w = Inr b'"
    using r q i1 by (simp add: completed_def Let_def b1_def[symmetric])
  moreover have "mset (pool b') = add_mset w (mset (pool b) - {#pool b ! nat i#})"
    using m' m2 by simp
  moreover have "pending (mem b' a) = (if a = w then pending (mem b a) - 1 else pending (mem b a))"
    for a using sd2 sd' by (simp add: same_data_def b1_def add_pending_def)
  ultimately show ?thesis unfolding i_def by blast
qed

lemma completed_out_of_range:
  assumes "\<not> in_bounds (pool b) (idx (mem b w))"
  shows "completed b w = Inl IndexOutOfRange"
proof -
  define b1 where "b1 = b\<lparr>mem := add_pending w (- 1) (mem b)\<rparr>"
  have "\<not> in_bounds (pool b1) (idx (mem b1 w))"
    using assms by (simp add: b1_def add_pending_def)
  from heap_Remove_out_of_range[OF this] show ?thesis
    by (simp add: completed_def Let_def b1_def[symmetric])
qed

lemma well_timed_take: "well_timed out b es \<Longrightarrow> well_timed out b (take k es)"
proof (induction es arbitrary: out b k)
  case Nil
  then show ?case by simp
next
  case (Cons e es)
  show ?case
  proof (cases k)
    case 0
    then show ?thesis by simp
  next
    case (Suc k')
    show ?thesis
    proof (cases e)
      case (Arrive req)
      with Cons.prems Cons.IH Suc show ?thesis by (auto split: sum.splits prod.splits)
    next
      case (Finish w)
      with Cons.prems Cons.IH Suc show ?thesis by (auto split: sum.splits)
    qed
  qed
qed

lemma well_timed_run:
  assumes "pool_inv b" and "\<And>a. pending (mem b a) = int (out a)"
    and "\<And>a. 0 < out a \<Longrightarrow> a \<in> set (pool b)" and "well_timed out b es"
  shows "\<exists>b'. balance b es = Inr b' \<and> (\<forall>a. 0 \<le> pending (mem b' a))"
  using assms
proof (induction es arbitrary: b out)
  case Nil
  then show ?case by simp
next
  case (Cons e es)
  from Cons.prems(1) have h: "heap_ok b" and ok: "pos_ok b" and ne: "pool b \<noteq> []"
    by (simp_all add: pool_inv_def)
  show ?case
  proof (cases e)
    case (Arrive req)
    define w where "w = pool b ! 0"
    from heap_Pop_spec[OF h ne] obtain b1 where p: "heap_Pop b = Inr (w, b1)"
      unfolding w_def by blast
    from dispatch_spec[OF h ok ne, of req] obtain b' where
      d: "dispatch b req = Inr b'" and i: "heap_ok b'" "pos_ok b'"
      and m: "mset (pool b') = mset (pool b)"
      and q: "\<And>a. pending (mem b' a) =
                (if a = w then pending (mem b a) + 1 else pending (mem b a))"
      unfolding w_def by blast
    have s: "set (pool b') = set (pool b)" using m by (rule mset_eq_setD)
    have inv': "pool_inv b'" using i s ne by (auto simp: pool_inv_def)
    have wt: "well_timed (out(w := out w + 1)) b' es"
      using Cons.prems(4) Arrive p d by simp
    have "pending (mem b' a) = int ((out(w := out w + 1)) a)" for a
      using q[of a] Cons.prems(2)[of a] Cons.prems(2)[of w] by simp
    moreover have "a \<in> set (pool b')" if "0 < (out(w := out w + 1)) a" for a
      using that Cons.prems(3)[of a] s ne by (auto simp: w_def split: if_splits)
    ultimately have "\<exists>b''. balance b' es = Inr b'' \<and> (\<forall>a. 0 \<le> pending (mem b'' a))"
      using Cons.IH[OF inv' _ _ wt] by blast
    then show ?thesis using Arrive d by simp
  next
    case (Finish w)
    from Cons.prems(4) Finish have ow: "0 < out w" by simp
    then have win: "w \<in> set (pool b)" by (rule Cons.prems(3))
    from completed_spec[OF h ok win] obtain b' where
      d: "completed b w = Inr b'" and i: "heap_ok b'" "pos_ok b'"
      and m: "mset (pool b') = mset (pool b)"
      and q: "\<And>a. pending (mem b' a) =
                (if a = w then pending (mem b a) - 1 else pending (mem b a))"
      by blast
    have s: "set (pool b') = set (pool b)" using m by (rule mset_eq_setD)
    have inv': "pool_inv b'" using i s ne by (auto simp: pool_inv_def)
    have wt: "well_timed (out(w := out w - 1)) b' es"
      using Cons.prems(4) Finish d by simp
    have "pending (mem b' a) = int ((out(w := out w - 1)) a)" for a
      using q[of a] Cons.prems(2)[of a] Cons.prems(2)[of w] ow by (simp add: of_nat_diff)
    moreover have "a \<in> set (pool b')" if "0 < (out(w := out w - 1)) a" for a
      using that Cons.prems(3)[of a] s win by (auto split: if_splits)
    ultimately have "\<exists>b''. balance b' es = Inr b'' \<and> (\<forall>a. 0 \<le> pending (mem b'' a))"
      using Cons.IH[OF inv' _ _ wt] by blast
    then show ?thesis using Finish d by simp
  qed
qed

lemma sum_list_all_one:
  fixes f :: "'a \<Rightarrow> int"
  assumes "\<And>x. x \<in> set xs \<Longrightarrow> f x = 0 \<or> f x = 1"
  shows "sum_list (map f xs) \<le> int (length xs) \<and>
         (sum_list (map f xs) = int (length xs) \<longrightarrow> (\<forall>x \<in> set xs. f x = 1))"
  using assms
proof (induction xs)
  case Nil
  then show ?case by simp
next
  case (Cons x xs)
  then have ih: "sum_list (map f xs) \<le> int (length xs)"
    "sum_list (map f xs) = int (length xs) \<longrightarrow> (\<forall>x \<in> set xs. f x = 1)" by simp_all
  have "f x = 0 \<or> f x = 1" using Cons.prems by simp
  then show ?case using ih by auto
qed

lemma sum_list_ones:
  fixes f :: "'a \<Rightarrow> int"
  shows "(\<And>x. x \<in> set xs \<Longrightarrow> f x = 1) \<Longrightarrow> sum_list (map f xs) = int (length xs)"
  by (induction xs) simp_all

lemma handle_pending_step:
  assumes "pool_inv b" and "from_pool b e" and "handle b e = Inr b'"
  shows "\<bar>pending (mem b' a) - pending (mem b a)\<bar> \<le> 1"
proof -
  from assms(1) have h: "heap_ok b" and ok: "pos_ok b" and ne: "pool b \<noteq> []"
    by (simp_all add: pool_inv_def)
  show ?thesis
  proof (cases e)
    case (Arrive req)
    with dispatch_spec[OF h ok ne, of req] assms(3) show ?thesis by auto
  next
    case (Finish w)
    with assms(2) have "w \<in> set (pool b)" by simp
    from completed_spec[OF h ok this] Finish assms(3) show ?thesis by auto
  qed
qed

lemma balance_pending_bound:
  assumes "pool_inv b" and "list_all (from_pool b) es" and "balance b es = Inr b'"
  shows "\<bar>pending (mem b' a) - pending (mem b a)\<bar> \<le> int (length es)"
  using assms
proof (induction es arbitrary: b)
  case Nil
  then show ?case by simp
next
  case (Cons e es)
  from Cons.prems have e: "from_pool b e" and es: "list_all (from_pool b) es" by simp_all
  from handle_spec[OF Cons.prems(1) e] obtain b1 where
    s: "handle b e = Inr b1" and i1: "pool_inv b1" and m1: "mset (pool b1) = mset (pool b)"
    by blast
  have "set (pool b1) = set (pool b)" using m1 by (rule mset_eq_setD)
  then have "from_pool b1 = from_pool b" by (intro ext from_pool_cong)
  then have es1: "list_all (from_pool b1) es" using es by simp
  have r: "balance b1 es = Inr b'" using Cons.prems(3) s by simp
  have "\<bar>pending (mem b' a) - pending (mem b1 a)\<bar> \<le> int (length es)"
    using Cons.IH[OF i1 es1 r] .
  moreover have "\<bar>pending (mem b1 a) - pending (mem b a)\<bar> \<le> 1"
    using handle_pending_step[OF Cons.prems(1) e s] .
  ultimately show ?case by simp
qed

lemma distinct_add_mset:
  assumes "mset xs = add_mset w (mset ys)" and "distinct xs"
  shows "distinct ys \<and> w \<notin> set ys"
proof -
  have "mset xs = mset (w # ys)" using assms(1) by simp
  then have "distinct (w # ys)" using assms(2) by (metis mset_eq_imp_distinct_iff)
  then show ?thesis by simp
qed

lemma sum_list_zeros:
  fixes f :: "'a \<Rightarrow> int"
  shows "(\<And>x. x \<in> set xs \<Longrightarrow> f x = 0) \<Longrightarrow> sum_list (map f xs) = 0"
  by (induction xs) simp_all

lemma dispatch_heap:
  assumes h: "heap_ok b" and d: "distinct (pool b)" and ne: "pool b \<noteq> []"
  shows "\<exists>b'. dispatch b req = Inr b' \<and> heap_ok b' \<and> mset (pool b') = mset (pool b) \<and>
           (\<forall>a. pending (mem b' a) =
                  (if a = pool b ! 0 then pending (mem b a) + 1 else pending (mem b a)))"
proof -
  define w where "w = pool b ! 0"
  from heap_Pop_spec[OF h ne] obtain b1 where
    p: "heap_Pop b = Inr (w, b1)" and h1: "heap_ok b1"
    and m1: "mset (pool b) = add_mset w (mset (pool b1))" and sd1: "same_data b b1"
    unfolding w_def by blast
  have nw: "w \<notin> set (pool b1)" using distinct_add_mset[OF m1 d] by simp
  define b2 where "b2 = b1\<lparr>mem := add_pending w 1 (send_work w req (mem b1))\<rparr>"
  have p2: "pool b2 = pool b1" by (simp add: b2_def)
  have h2: "heap_ok b2"
    using h1 p2
  proof (rule heap_ok_cong)
    fix a assume "a \<in> set (pool b1)"
    with nw have "a \<noteq> w" by auto
    then show "pending (mem b2 a) = pending (mem b1 a)"
      by (simp add: b2_def add_pending_def send_work_def)
  qed
  from heap_Push_spec[OF h2, of w] obtain b' where
    q: "heap_Push b2 w = Inr b'" and h': "heap_ok b'"
    and m': "mset (pool b') = add_mset w (mset (pool b2))" and sd': "same_data b2 b'"
    by blast
  have "dispatch b req = Inr b'" using p q by (simp add: dispatch_def b2_def)
  moreover have "mset (pool b') = mset (pool b)" using m' m1 p2 by simp
  moreover have "pending (mem b' a) = (if a = w then pending (mem b a) + 1 else pending (mem b a))"
    for a using sd1 sd' by (simp add: same_data_def b2_def add_pending_def send_work_def)
  ultimately show ?thesis using h' unfolding w_def by blast
qed

lemma arrivals_spread_distinct:
  assumes "heap_ok b" and "distinct (pool b)"
    and "\<And>a. a \<in> set (pool b) \<Longrightarrow> pending (mem b a) = 0 \<or> pending (mem b a) = 1"
    and "list_all is_Arrive es" and "total_pending b + int (length es) \<le> int (length (pool b))"
  shows "\<exists>b'. balance b es = Inr b' \<and> heap_ok b' \<and> mset (pool b') = mset (pool b) \<and>
           (\<forall>a \<in> set (pool b'). pending (mem b' a) = 0 \<or> pending (mem b' a) = 1) \<and>
           total_pending b' = total_pending b + int (length es)"
  using assms
proof (induction es arbitrary: b)
  case Nil
  then show ?case by simp
next
  case (Cons e es)
  from Cons.prems(4) obtain req where e: "e = Arrive req" by (cases e) simp_all
  note h = Cons.prems(1) and d = Cons.prems(2)
  have "total_pending b < int (length (pool b))" using Cons.prems(5) by simp
  moreover have "\<forall>a \<in> set (pool b). 0 \<le> pending (mem b a)"
    using Cons.prems(3) by force
  then have "0 \<le> total_pending b"
    unfolding total_pending_def by (intro sum_list_nonneg) auto
  ultimately have ne: "pool b \<noteq> []" by auto
  define w where "w = pool b ! 0"
  have win: "w \<in> set (pool b)" using ne by (simp add: w_def)
  have "\<not> (\<forall>a \<in> set (pool b). pending (mem b a) = 1)"
    using sum_list_ones[of "pool b" "\<lambda>a. pending (mem b a)"]
      \<open>total_pending b < int (length (pool b))\<close>
    by (auto simp: total_pending_def)
  then obtain a where a: "a \<in> set (pool b)" "pending (mem b a) = 0"
    using Cons.prems(3) by blast
  have "pending (mem b w) \<le> 0" using heap_ok_root_least[OF h a(1)] a(2) by (simp add: w_def)
  then have w0: "pending (mem b w) = 0" using Cons.prems(3)[OF win] by auto
  from dispatch_heap[OF h d ne, of req] obtain b1 where
    s: "dispatch b req = Inr b1" and h1: "heap_ok b1" and m1: "mset (pool b1) = mset (pool b)"
    and q: "\<And>a. pending (mem b1 a) = (if a = w then pending (mem b a) + 1 else pending (mem b a))"
    unfolding w_def by blast
  have t1: "total_pending b1 = total_pending b + 1"
    using m1 d win q by (rule total_pending_bump)
  have s1: "set (pool b1) = set (pool b)" using m1 by (rule mset_eq_setD)
  have len1: "length (pool b1) = length (pool b)" using m1 by (metis size_mset)
  have d1: "distinct (pool b1)" using m1 d by (metis mset_eq_imp_distinct_iff)
  have r1: "pending (mem b1 a) = 0 \<or> pending (mem b1 a) = 1" if "a \<in> set (pool b1)" for a
    using q[of a] w0 Cons.prems(3)[of a] that s1 by auto
  have "list_all is_Arrive es" using Cons.prems(4) by simp
  moreover have "total_pending b1 + int (length es) \<le> int (length (pool b1))"
    using t1 len1 Cons.prems(5) by simp
  ultimately obtain b' where
    r: "balance b1 es = Inr b'" "heap_ok b'" "mset (pool b') = mset (pool b1)"
    "\<forall>a \<in> set (pool b'). pending (mem b' a) = 0 \<or> pending (mem b' a) = 1"
    "total_pending b' = total_pending b1 + int (length es)"
    using Cons.IH[OF h1 d1 r1] by blast
  have "balance b (e # es) = Inr b'" using s r(1) by (simp add: e)
  then show ?case using r m1 t1 by auto
qed

section \<open>The properties of the specification\<close>

text \<open>
  C1. From the initial pool, after every event of every run of \<open>balance\<close> the pool is a
  min-heap on \<open>pending\<close>; in every state so reached both transitions, \<open>dispatch\<close>
  (pop, enqueue, increment, push) and \<open>completed\<close> (decrement, remove at \<open>idx\<close>, push),
  return with the heap property restored. The completion events of a run name workers
  of the pool, the only senders on the \<open>done\<close> channel.
\<close>

theorem heap_property_after_every_event:
  assumes "0 < n" and "list_all (known_worker n) es"
  shows "(\<forall>k \<in> {0..length es}. \<exists>b. main_of n (take k es) = Inr b \<and> heap_ok b) \<and>
         (\<exists>b. main_of n es = Inr b \<and>
            (\<forall>req. \<exists>b'. dispatch b req = Inr b' \<and> heap_ok b') \<and>
            (\<forall>w \<in> set (pool b). \<exists>b'. completed b w = Inr b' \<and> heap_ok b'))"
proof (intro conjI ballI)
  fix k assume "k \<in> {0..length es}"
  from main_of_spec[OF assms(1) list_all_take[OF assms(2)], of k]
  show "\<exists>b. main_of n (take k es) = Inr b \<and> heap_ok b" by (auto simp: pool_inv_def)
next
  from main_of_spec[OF assms] obtain b where
    b: "main_of n es = Inr b" "pool_inv b" by blast
  then have h: "heap_ok b" and ok: "pos_ok b" and ne: "pool b \<noteq> []"
    by (simp_all add: pool_inv_def)
  have "\<exists>b'. dispatch b req = Inr b' \<and> heap_ok b'" for req
    using dispatch_spec[OF h ok ne, of req] by blast
  moreover have "\<exists>b'. completed b w = Inr b' \<and> heap_ok b'" if "w \<in> set (pool b)" for w
    using completed_spec[OF h ok that] by blast
  ultimately show "\<exists>b. main_of n es = Inr b \<and>
            (\<forall>req. \<exists>b'. dispatch b req = Inr b' \<and> heap_ok b') \<and>
            (\<forall>w \<in> set (pool b). \<exists>b'. completed b w = Inr b' \<and> heap_ok b')"
    using b(1) by blast
qed

theorem heap_property_after_every_event_witness:
  "0 < (3::nat) \<and> list_all (known_worker 3) [Arrive rq, Arrive rq, Finish 1, Arrive rq, Finish 0] \<and>
   (\<exists>b. main_of 3 [Arrive rq, Arrive rq, Finish 1, Arrive rq, Finish 0] = Inr b \<and> heap_ok b)"
proof -
  have h: "list_all (known_worker 3) [Arrive rq, Arrive rq, Finish 1, Arrive rq, Finish 0]"
    by simp
  have p: "0 < (3::nat)" by simp
  have k: "(5::nat) \<in> {0..length [Arrive rq, Arrive rq, Finish 1, Arrive rq, Finish 0]}" by simp
  from heap_property_after_every_event[OF p h, THEN conjunct1, THEN bspec, OF k]
  have "\<exists>b. main_of 3 [Arrive rq, Arrive rq, Finish 1, Arrive rq, Finish 0] = Inr b \<and> heap_ok b"
    by simp
  with p h show ?thesis by (intro conjI)
qed

text \<open>
  C2. On a non-empty pool that is a min-heap, \<open>dispatch\<close> returns; the request goes to
  the worker at the root, whose pending count is least over the pool; that worker's
  pending count goes up by one and its queue gets the request; no other worker
  changes; the pool holds the same workers afterwards, is again a min-heap when its
  workers are distinct, and has right positions when it had them before. For two
  workers with pending counts 2 and 0 (worker 0 and worker 1 of \<open>scenario_B\<close>, the
  latter at the root as the heap property requires), the request goes to the worker
  with pending 0 and the pending counts become 2 and 1.
\<close>

theorem dispatch_goes_to_least_loaded:
  assumes "heap_ok b" and "pool b \<noteq> []"
  shows "(\<exists>b'. dispatch b req = Inr b' \<and>
            (\<forall>a \<in> set (pool b). pending (mem b (pool b ! 0)) \<le> pending (mem b a)) \<and>
            pending (mem b' (pool b ! 0)) = pending (mem b (pool b ! 0)) + 1 \<and>
            work (mem b' (pool b ! 0)) = work (mem b (pool b ! 0)) @ [req] \<and>
            (\<forall>a. a \<noteq> pool b ! 0 \<longrightarrow>
               pending (mem b' a) = pending (mem b a) \<and> work (mem b' a) = work (mem b a)) \<and>
            mset (pool b') = mset (pool b) \<and>
            (distinct (pool b) \<longrightarrow> heap_ok b') \<and> (pos_ok b \<longrightarrow> pos_ok b')) \<and>
         (\<exists>b'. dispatch scenario_B req = Inr b' \<and>
            work (mem b' 1) = [req] \<and> work (mem b' 0) = [] \<and>
            pending (mem b' 0) = 2 \<and> pending (mem b' 1) = 1 \<and>
            image_mset (\<lambda>a. pending (mem b' a)) (mset (pool b')) = {#2, 1#})"
proof
  from dispatch_total[OF assms, of req] obtain b' where
    d: "dispatch b req = Inr b'" and m: "mset (pool b') = mset (pool b)"
    and p: "\<And>a. pending (mem b' a) =
              (if a = pool b ! 0 then pending (mem b a) + 1 else pending (mem b a))"
    and q: "\<And>a. work (mem b' a) =
              (if a = pool b ! 0 then work (mem b a) @ [req] else work (mem b a))"
    by blast
  have "heap_ok b'" if "distinct (pool b)"
    using dispatch_heap[OF assms(1) that assms(2), of req] d by auto
  moreover have "pos_ok b'" if "pos_ok b"
    using dispatch_spec[OF assms(1) that assms(2), of req] d by auto
  ultimately show "\<exists>b'. dispatch b req = Inr b' \<and>
            (\<forall>a \<in> set (pool b). pending (mem b (pool b ! 0)) \<le> pending (mem b a)) \<and>
            pending (mem b' (pool b ! 0)) = pending (mem b (pool b ! 0)) + 1 \<and>
            work (mem b' (pool b ! 0)) = work (mem b (pool b ! 0)) @ [req] \<and>
            (\<forall>a. a \<noteq> pool b ! 0 \<longrightarrow>
               pending (mem b' a) = pending (mem b a) \<and> work (mem b' a) = work (mem b a)) \<and>
            mset (pool b') = mset (pool b) \<and>
            (distinct (pool b) \<longrightarrow> heap_ok b') \<and> (pos_ok b \<longrightarrow> pos_ok b')"
    using d m p q heap_ok_root_least[OF assms(1)] by (intro exI[of _ b']) simp
next
  have h: "heap_ok scenario_B" by (simp add: heap_ok_def scenario_B_def)
  have ne: "pool scenario_B \<noteq> []" by (simp add: scenario_B_def)
  from dispatch_total[OF h ne, of req] obtain b' where
    d: "dispatch scenario_B req = Inr b'" and m: "mset (pool b') = mset (pool scenario_B)"
    and p: "\<And>a. pending (mem b' a) =
              (if a = pool scenario_B ! 0 then pending (mem scenario_B a) + 1
               else pending (mem scenario_B a))"
    and q: "\<And>a. work (mem b' a) =
              (if a = pool scenario_B ! 0 then work (mem scenario_B a) @ [req]
               else work (mem scenario_B a))"
    by blast
  have "image_mset (\<lambda>a. pending (mem b' a)) (mset (pool b')) = {#2, 1#}"
    unfolding m by (simp add: p) (simp add: scenario_B_def)
  moreover have "work (mem b' 1) = [req]" "work (mem b' 0) = []"
    "pending (mem b' 0) = 2" "pending (mem b' 1) = 1"
    by (simp_all add: p q) (simp_all add: scenario_B_def)
  ultimately show "\<exists>b'. dispatch scenario_B req = Inr b' \<and>
            work (mem b' 1) = [req] \<and> work (mem b' 0) = [] \<and>
            pending (mem b' 0) = 2 \<and> pending (mem b' 1) = 1 \<and>
            image_mset (\<lambda>a. pending (mem b' a)) (mset (pool b')) = {#2, 1#}"
    using d by (intro exI[of _ b']) simp
qed

theorem dispatch_goes_to_least_loaded_witness:
  "heap_ok scenario_B \<and> pool scenario_B \<noteq> [] \<and>
   (\<exists>b'. dispatch scenario_B rq = Inr b' \<and> pending (mem b' 1) = 1 \<and> pending (mem b' 0) = 2 \<and>
      work (mem b' 1) = [rq])"
proof -
  have h: "heap_ok scenario_B" by (simp add: heap_ok_def scenario_B_def)
  have ne: "pool scenario_B \<noteq> []" by (simp add: scenario_B_def)
  from dispatch_goes_to_least_loaded[OF h ne, of rq, THEN conjunct1] obtain b' where
    "dispatch scenario_B rq = Inr b'"
    "pending (mem b' (pool scenario_B ! 0)) = pending (mem scenario_B (pool scenario_B ! 0)) + 1"
    "work (mem b' (pool scenario_B ! 0)) = work (mem scenario_B (pool scenario_B ! 0)) @ [rq]"
    "\<forall>a. a \<noteq> pool scenario_B ! 0 \<longrightarrow>
       pending (mem b' a) = pending (mem scenario_B a) \<and> work (mem b' a) = work (mem scenario_B a)"
    by blast
  then have "\<exists>b'. dispatch scenario_B rq = Inr b' \<and> pending (mem b' 1) = 1 \<and>
               pending (mem b' 0) = 2 \<and> work (mem b' 1) = [rq]"
    by (intro exI[of _ b']) (simp add: scenario_B_def)
  with h ne show ?thesis by (intro conjI)
qed

text \<open>
  C3. In every state reached from the initial pool, every worker \<open>w\<close> of the pool sits
  in slot \<open>w.idx\<close>; and each structural operation (\<open>Swap\<close>, \<open>heap.Push\<close> of a worker
  not in the pool, \<open>heap.Pop\<close>, \<open>heap.Remove\<close>) that returns keeps \<open>idx\<close> equal to the
  slot for every worker left in the pool.
\<close>

theorem idx_is_position:
  assumes "0 < n" and "list_all (known_worker n) es"
  shows "(\<exists>b. main_of n es = Inr b \<and> pos_ok b \<and>
            (\<forall>w \<in> set (pool b).
               in_bounds (pool b) (idx (mem b w)) \<and> pool b ! nat (idx (mem b w)) = w)) \<and>
         (\<forall>b b' i j w.
            pos_ok b \<longrightarrow>
              (Pool_Swap b i j = Inr b' \<longrightarrow> pos_ok b') \<and>
              (w \<notin> set (pool b) \<longrightarrow> heap_Push b w = Inr b' \<longrightarrow> pos_ok b') \<and>
              (heap_Pop b = Inr (w, b') \<longrightarrow> pos_ok b') \<and>
              (heap_Remove b i = Inr (w, b') \<longrightarrow> pos_ok b'))"
proof (intro conjI allI impI)
  from main_of_spec[OF assms] obtain b where
    b: "main_of n es = Inr b" "pool_inv b" by blast
  then have ok: "pos_ok b" by (simp add: pool_inv_def)
  then show "\<exists>b. main_of n es = Inr b \<and> pos_ok b \<and>
            (\<forall>w \<in> set (pool b).
               in_bounds (pool b) (idx (mem b w)) \<and> pool b ! nat (idx (mem b w)) = w)"
    using b(1) pos_ok_lookup[OF ok] by blast
next
  fix b b' :: LoadBalancer and i j :: int
  assume "pos_ok b" "Pool_Swap b i j = Inr b'"
  then show "pos_ok b'" using Pool_Swap_pos_ok by blast
next
  fix b b' :: LoadBalancer and w :: addr
  assume "pos_ok b" "w \<notin> set (pool b)" "heap_Push b w = Inr b'"
  then show "pos_ok b'" using heap_Push_total[of b w] by auto
next
  fix b b' :: LoadBalancer and w :: addr
  assume ok: "pos_ok b" and p: "heap_Pop b = Inr (w, b')"
  then have "pool b \<noteq> []" using heap_Pop_empty[of b] by auto
  from heap_Pop_total[OF this] ok p show "pos_ok b'" by auto
next
  fix b b' :: LoadBalancer and w :: addr and i :: int
  assume ok: "pos_ok b" and r: "heap_Remove b i = Inr (w, b')"
  then have "in_bounds (pool b) i" using heap_Remove_out_of_range[of b i] by auto
  from heap_Remove_total[OF this] ok r show "pos_ok b'" by auto
qed

theorem idx_is_position_witness:
  "0 < (3::nat) \<and> list_all (known_worker 3) [Arrive rq, Finish 2, Arrive rq] \<and>
   (\<exists>b. main_of 3 [Arrive rq, Finish 2, Arrive rq] = Inr b \<and> pos_ok b)"
proof -
  have h: "list_all (known_worker 3) [Arrive rq, Finish 2, Arrive rq]" by simp
  have p: "0 < (3::nat)" by simp
  from idx_is_position[OF p h, THEN conjunct1]
  have "\<exists>b. main_of 3 [Arrive rq, Finish 2, Arrive rq] = Inr b \<and> pos_ok b" by blast
  with p h show ?thesis by (intro conjI)
qed

text \<open>
  C4. In every state reached from the initial pool, the pending counts of the workers
  in the pool add up to the number of requests dispatched minus the number of
  completions processed (\<open>total_pending\<close> is the \<open>sum\<close> that \<open>print\<close> computes). A
  dispatch adds one to the pending count of one worker, the one at the root of the
  heap, and a completion takes one from the pending count of the worker it names; no
  other pending count changes.
\<close>

theorem pending_sum_is_in_flight:
  assumes "0 < n" and "list_all (known_worker n) es"
  shows "\<exists>b. main_of n es = Inr b \<and>
           total_pending b = dispatched es - finished es \<and>
           (\<forall>req. \<exists>b'. dispatch b req = Inr b' \<and>
              (\<forall>a. pending (mem b' a) =
                     (if a = pool b ! 0 then pending (mem b a) + 1 else pending (mem b a)))) \<and>
           (\<forall>w \<in> set (pool b). \<exists>b'. completed b w = Inr b' \<and>
              (\<forall>a. pending (mem b' a) =
                     (if a = w then pending (mem b a) - 1 else pending (mem b a))))"
proof -
  from main_of_spec[OF assms] obtain b where
    b: "main_of n es = Inr b" "pool_inv b" "total_pending b = dispatched es - finished es"
    by blast
  then have h: "heap_ok b" and ok: "pos_ok b" and ne: "pool b \<noteq> []"
    by (simp_all add: pool_inv_def)
  have "\<exists>b'. dispatch b req = Inr b' \<and>
              (\<forall>a. pending (mem b' a) =
                     (if a = pool b ! 0 then pending (mem b a) + 1 else pending (mem b a)))"
    for req using dispatch_spec[OF h ok ne, of req] by blast
  moreover have "\<exists>b'. completed b w = Inr b' \<and>
              (\<forall>a. pending (mem b' a) =
                     (if a = w then pending (mem b a) - 1 else pending (mem b a)))"
    if "w \<in> set (pool b)" for w using completed_spec[OF h ok that] by blast
  ultimately show ?thesis using b(1,3) by blast
qed

theorem pending_sum_is_in_flight_witness:
  "0 < (3::nat) \<and> list_all (known_worker 3) [Arrive rq, Arrive rq, Finish 1, Arrive rq] \<and>
   (\<exists>b. main_of 3 [Arrive rq, Arrive rq, Finish 1, Arrive rq] = Inr b \<and> total_pending b = 2)"
proof -
  have h: "list_all (known_worker 3) [Arrive rq, Arrive rq, Finish 1, Arrive rq]" by simp
  have p: "0 < (3::nat)" by simp
  have c: "dispatched [Arrive rq, Arrive rq, Finish 1, Arrive rq]
          - finished [Arrive rq, Arrive rq, Finish 1, Arrive rq] = 2"
    by (simp add: dispatched_def finished_def)
  from pending_sum_is_in_flight[OF p h] obtain b where
    "main_of 3 [Arrive rq, Arrive rq, Finish 1, Arrive rq] = Inr b"
    "total_pending b = dispatched [Arrive rq, Arrive rq, Finish 1, Arrive rq]
          - finished [Arrive rq, Arrive rq, Finish 1, Arrive rq]" by blast
  then have "\<exists>b. main_of 3 [Arrive rq, Arrive rq, Finish 1, Arrive rq] = Inr b \<and>
               total_pending b = 2" using c by (intro exI[of _ b]) simp
  with p h show ?thesis by (intro conjI)
qed

text \<open>
  C5. In a run from the initial pool in which every completion names a worker with a
  request outstanding (dispatched to it and not yet reported finished), the run does
  not panic and no pending count is negative after any event. The hypothesis is
  needed: \<open>completed\<close> subtracts one whatever the count is, and a completion received
  first leaves worker 0 with pending count \<open>-1\<close>.
\<close>

theorem pending_never_negative:
  assumes "0 < n" and "main_well_timed n es"
  shows "(\<forall>k \<in> {0..length es}. \<exists>b. main_of n (take k es) = Inr b \<and>
            (\<forall>w \<in> set (pool b). 0 \<le> pending (mem b w))) \<and>
         (\<exists>b. main_of n [Finish 0] = Inr b \<and> pending (mem b 0) = - 1)"
proof (intro conjI ballI)
  from newLoadBalancer_of_spec[of n] obtain b0 where
    i: "newLoadBalancer_of n = Inr b0" and h: "heap_ok b0" "pos_ok b0"
    and m: "mset (pool b0) = mset [0..<n]"
    and z: "\<forall>x. pending (mem b0 x) = 0 \<and> work (mem b0 x) = []"
    by blast
  have len: "length (pool b0) = n" and s: "set (pool b0) = {..<n}"
    using pool_of_mset_upt[OF m] by simp_all
  have inv: "pool_inv b0" using h len assms(1) by (auto simp: pool_inv_def)
  {
    fix k assume "k \<in> {0..length es}"
    have "well_timed (\<lambda>_. 0) b0 (take k es)"
      using assms(2) i by (simp add: main_well_timed_def well_timed_take)
    from well_timed_run[OF inv _ _ this] z
    show "\<exists>b. main_of n (take k es) = Inr b \<and> (\<forall>w \<in> set (pool b). 0 \<le> pending (mem b w))"
      using i by (auto simp: main_of_def)
  }
  have "0 \<in> set (pool b0)" using s assms(1) by simp
  from completed_spec[OF h this] z
  show "\<exists>b. main_of n [Finish 0] = Inr b \<and> pending (mem b 0) = - 1"
    using i by (auto simp: main_of_def)
qed

theorem pending_never_negative_witness:
  "0 < (2::nat) \<and> main_well_timed 2 [Arrive rq, Arrive rq, Finish 1] \<and>
   (\<exists>b. main_of 2 [Arrive rq, Arrive rq, Finish 1] = Inr b \<and>
      (\<forall>w \<in> set (pool b). 0 \<le> pending (mem b w)))"
proof -
  have p: "0 < (2::nat)" by simp
  have h: "main_well_timed 2 [Arrive rq, Arrive rq, Finish 1]"
    by code_simp
  have k: "(3::nat) \<in> {0..length [Arrive rq, Arrive rq, Finish 1]}" by simp
  from pending_never_negative[OF p h, THEN conjunct1, THEN bspec, OF k]
  have "\<exists>b. main_of 2 [Arrive rq, Arrive rq, Finish 1] = Inr b \<and>
      (\<forall>w \<in> set (pool b). 0 \<le> pending (mem b w))" by simp
  with p h show ?thesis by (intro conjI)
qed

text \<open>
  C6. From any pool of \<open>N \<ge> 1\<close> distinct workers with nothing pending, after any number
  \<open>k \<le> N\<close> of requests dispatched with no completion in between, every worker has
  pending count 0 or 1 and the counts add up to \<open>k\<close>: no worker gets a second request
  while another has none. After \<open>N\<close> requests every worker has pending count exactly 1.
\<close>

theorem n_tasks_spread_over_n_workers:
  assumes "pool b \<noteq> []" and "distinct (pool b)"
    and "\<forall>w \<in> set (pool b). pending (mem b w) = 0"
    and "list_all is_Arrive es" and "length es \<le> length (pool b)"
  shows "\<exists>b'. balance b es = Inr b' \<and> mset (pool b') = mset (pool b) \<and>
           (\<forall>w \<in> set (pool b). pending (mem b' w) = 0 \<or> pending (mem b' w) = 1) \<and>
           total_pending b' = int (length es) \<and>
           (length es = length (pool b) \<longrightarrow> (\<forall>w \<in> set (pool b). pending (mem b' w) = 1))"
proof -
  have h: "heap_ok b"
    unfolding heap_ok_def
  proof
    fix i assume "i \<in> {1..<length (pool b)}"
    then have "i < length (pool b)" "(i - 1) div 2 < length (pool b)" by auto
    then have "pool b ! i \<in> set (pool b)" "pool b ! ((i - 1) div 2) \<in> set (pool b)"
      by simp_all
    then show "pending (mem b (pool b ! ((i - 1) div 2))) \<le> pending (mem b (pool b ! i))"
      using assms(3) by simp
  qed
  have t0: "total_pending b = 0"
    unfolding total_pending_def using assms(3) by (intro sum_list_zeros) simp
  have "total_pending b + int (length es) \<le> int (length (pool b))"
    using t0 assms(5) by simp
  from arrivals_spread_distinct[OF h assms(2) _ assms(4) this] assms(3) obtain b' where
    r: "balance b es = Inr b'" "mset (pool b') = mset (pool b)"
    "\<forall>a \<in> set (pool b'). pending (mem b' a) = 0 \<or> pending (mem b' a) = 1"
    "total_pending b' = total_pending b + int (length es)" by auto
  have sb: "set (pool b') = set (pool b)" using r(2) by (rule mset_eq_setD)
  have lb: "length (pool b') = length (pool b)" using r(2) by (metis size_mset)
  have "\<forall>w \<in> set (pool b'). pending (mem b' w) = 1" if "length es = length (pool b)"
    using sum_list_all_one[of "pool b'" "\<lambda>a. pending (mem b' a)"] r(3,4) t0 lb that
    by (simp add: total_pending_def)
  then show ?thesis using r sb t0 by auto
qed

theorem n_tasks_spread_over_n_workers_witness:
  "pool idle_pool \<noteq> [] \<and> distinct (pool idle_pool) \<and>
   list_all (\<lambda>w. pending (mem idle_pool w) = 0) (pool idle_pool) \<and>
   list_all is_Arrive [Arrive rq, Arrive rq, Arrive rq] \<and>
   length [Arrive rq, Arrive rq, Arrive rq] \<le> length (pool idle_pool) \<and>
   (\<exists>b'. balance idle_pool [Arrive rq, Arrive rq, Arrive rq] = Inr b' \<and>
      pending (mem b' 4) = 1 \<and> pending (mem b' 2) = 1 \<and> pending (mem b' 7) = 1)"
proof -
  have 1: "pool idle_pool \<noteq> []" and 2: "distinct (pool idle_pool)"
    and 3: "\<forall>w \<in> set (pool idle_pool). pending (mem idle_pool w) = 0"
    and 5: "length [Arrive rq, Arrive rq, Arrive rq] \<le> length (pool idle_pool)"
    by (simp_all add: idle_pool_def)
  have 4: "list_all is_Arrive [Arrive rq, Arrive rq, Arrive rq]" by simp
  from n_tasks_spread_over_n_workers[OF 1 2 3 4 5] obtain b' where
    "balance idle_pool [Arrive rq, Arrive rq, Arrive rq] = Inr b'"
    "length [Arrive rq, Arrive rq, Arrive rq] = length (pool idle_pool) \<longrightarrow>
       (\<forall>w \<in> set (pool idle_pool). pending (mem b' w) = 1)" by blast
  then have "\<exists>b'. balance idle_pool [Arrive rq, Arrive rq, Arrive rq] = Inr b' \<and>
      pending (mem b' 4) = 1 \<and> pending (mem b' 2) = 1 \<and> pending (mem b' 7) = 1"
    by (intro exI[of _ b']) (simp add: idle_pool_def)
  moreover have "list_all (\<lambda>w. pending (mem idle_pool w) = 0) (pool idle_pool)"
    using 3 by (simp add: list_all_iff)
  ultimately show ?thesis using 1 2 4 5 by (intro conjI)
qed

text \<open>
  C7. Starting from a pool of \<open>n > 0\<close> workers (\<open>workerSize\<close> in the program), the pool
  has \<open>n\<close> workers in every state reached, and every dispatch and every completion
  from such a state returns with \<open>n\<close> workers in the pool again. \<open>heap.Pop\<close> panics
  on an empty pool only, so the \<open>heap.Pop\<close> of \<open>dispatch\<close> never panics in a state
  reached.
\<close>

theorem pool_is_never_empty:
  assumes "0 < n" and "list_all (known_worker n) es"
  shows "(\<exists>b. main_of n es = Inr b \<and> length (pool b) = n \<and>
            (\<exists>w b1. heap_Pop b = Inr (w, b1)) \<and>
            (\<forall>req. \<exists>b'. dispatch b req = Inr b' \<and> length (pool b') = n) \<and>
            (\<forall>w \<in> set (pool b). \<exists>b'. completed b w = Inr b' \<and> length (pool b') = n)) \<and>
         (\<forall>b. (\<exists>e. heap_Pop b = Inl e) = (pool b = []))"
proof (intro conjI allI)
  from main_of_spec[OF assms] obtain b where
    b: "main_of n es = Inr b" "pool_inv b" "mset (pool b) = mset [0..<n]" by blast
  then have h: "heap_ok b" and ok: "pos_ok b" and ne: "pool b \<noteq> []"
    by (simp_all add: pool_inv_def)
  have len: "length (pool b) = n" using b(3) by (rule pool_of_mset_upt)
  have "\<exists>b'. dispatch b req = Inr b' \<and> length (pool b') = n" for req
  proof -
    from dispatch_spec[OF h ok ne, of req] obtain b' where
      "dispatch b req = Inr b'" "mset (pool b') = mset (pool b)" by blast
    then show ?thesis using len by (metis size_mset)
  qed
  moreover have "\<exists>b'. completed b w = Inr b' \<and> length (pool b') = n"
    if "w \<in> set (pool b)" for w
  proof -
    from completed_spec[OF h ok that] obtain b' where
      "completed b w = Inr b'" "mset (pool b') = mset (pool b)" by blast
    then show ?thesis using len by (metis size_mset)
  qed
  moreover have "\<exists>w b1. heap_Pop b = Inr (w, b1)" using heap_Pop_total[OF ne] by blast
  ultimately show "\<exists>b. main_of n es = Inr b \<and> length (pool b) = n \<and>
            (\<exists>w b1. heap_Pop b = Inr (w, b1)) \<and>
            (\<forall>req. \<exists>b'. dispatch b req = Inr b' \<and> length (pool b') = n) \<and>
            (\<forall>w \<in> set (pool b). \<exists>b'. completed b w = Inr b' \<and> length (pool b') = n)"
    using b(1) len by blast
next
  fix b :: LoadBalancer
  show "(\<exists>e. heap_Pop b = Inl e) = (pool b = [])"
  proof (cases "pool b = []")
    case True
    then show ?thesis using heap_Pop_empty[of b] by simp
  next
    case False
    from heap_Pop_total[OF this] show ?thesis using False by auto
  qed
qed

theorem pool_is_never_empty_witness:
  "0 < workerSize \<and> list_all (known_worker workerSize) [Arrive rq, Finish 9, Arrive rq] \<and>
   (\<exists>b. main_of workerSize [Arrive rq, Finish 9, Arrive rq] = Inr b \<and> length (pool b) = 10)"
proof -
  have h: "list_all (known_worker workerSize) [Arrive rq, Finish 9, Arrive rq]"
    by (simp add: workerSize_def)
  have p: "0 < workerSize" by (simp add: workerSize_def)
  from pool_is_never_empty[OF p h, THEN conjunct1] obtain b where
    "main_of workerSize [Arrive rq, Finish 9, Arrive rq] = Inr b" "length (pool b) = workerSize"
    by blast
  then have "\<exists>b. main_of workerSize [Arrive rq, Finish 9, Arrive rq] = Inr b \<and>
               length (pool b) = 10" by (intro exI[of _ b]) (simp add: workerSize_def)
  with p h show ?thesis by (intro conjI)
qed

text \<open>
  C8, as the code has it. \<open>completed\<close> does not compare \<open>pool[w.idx]\<close> with \<open>w\<close>. When
  \<open>w.idx\<close> is outside the pool the index expression of \<open>Swap\<close> or \<open>Pop\<close> panics. When
  \<open>w.idx\<close> is inside the pool, \<open>completed\<close> returns: the worker in slot \<open>w.idx\<close>,
  whichever it is, leaves the pool and \<open>w\<close> is pushed. (In the states reached from the
  initial pool \<open>pool[w.idx]\<close> is \<open>w\<close>.)
\<close>

theorem completed_trusts_idx:
  "(\<not> in_bounds (pool b) (idx (mem b w)) \<longrightarrow> completed b w = Inl IndexOutOfRange) \<and>
   (in_bounds (pool b) (idx (mem b w)) \<longrightarrow>
      (\<exists>b'. completed b w = Inr b' \<and>
         mset (pool b') = add_mset w (mset (pool b) - {#pool b ! nat (idx (mem b w))#})))"
  using completed_out_of_range[of b w] completed_total[of b w] by blast

theorem completed_trusts_idx_witness:
  "in_bounds (pool stale_idx) (idx (mem stale_idx 1)) \<and>
   (\<exists>b'. completed stale_idx 1 = Inr b' \<and> mset (pool b') = {#1, 1#})"
proof -
  have i: "in_bounds (pool stale_idx) (idx (mem stale_idx 1))"
    by (simp add: stale_idx_def in_bounds_def)
  from completed_trusts_idx[of stale_idx 1, THEN conjunct2, rule_format, OF i] obtain b' where
    "completed stale_idx 1 = Inr b'"
    "mset (pool b') = add_mset 1 (mset (pool stale_idx)
        - {#pool stale_idx ! nat (idx (mem stale_idx 1))#})" by blast
  then have "\<exists>b'. completed stale_idx 1 = Inr b' \<and> mset (pool b') = {#1, 1#}"
    by (intro exI[of _ b']) (simp add: stale_idx_def)
  with i show ?thesis by (intro conjI)
qed

text \<open>
  The claim C8 itself fails: in \<open>stale_idx\<close> worker 1 sits in slot 1 and records slot 0.
  Its completion does not panic; it removes worker 0 from the pool and leaves worker 1
  in it twice.
\<close>

theorem completed_stale_idx_counterexample:
  "pool stale_idx ! nat (idx (mem stale_idx 1)) \<noteq> 1 \<and>
   map_sum id pool (completed stale_idx 1) = Inr [1, 1]"
  by code_simp

text \<open>
  C10. When \<open>newLoadBalancer\<close> returns, the pool holds exactly \<open>workerSize\<close> workers,
  every worker has no pending request, \<open>idx\<close> of each worker is its slot in the pool,
  and the pool is a min-heap: the invariants of the running balancer hold initially.
\<close>

theorem newLoadBalancer_establishes_invariants:
  "\<exists>b. newLoadBalancer = Inr b \<and> length (pool b) = workerSize \<and>
       (\<forall>w \<in> set (pool b). pending (mem b w) = 0) \<and>
       (\<forall>i \<in> {0..<length (pool b)}. idx (mem b (pool b ! i)) = int i) \<and>
       heap_ok b \<and> pos_ok b \<and> total_pending b = 0"
proof -
  from newLoadBalancer_of_spec[of workerSize] obtain b where
    b: "newLoadBalancer_of workerSize = Inr b" "heap_ok b" "pos_ok b"
    "mset (pool b) = mset [0..<workerSize]"
    "\<forall>x. pending (mem b x) = 0 \<and> work (mem b x) = []" by blast
  have "length (pool b) = workerSize" using b(4) by (rule pool_of_mset_upt)
  moreover have "total_pending b = 0" using b(5) by (simp add: total_pending_def)
  moreover have "\<forall>i \<in> {0..<length (pool b)}. idx (mem b (pool b ! i)) = int i"
    using b(3) by (simp add: pos_ok_def)
  ultimately show ?thesis using b by (simp add: newLoadBalancer_def)
qed

theorem newLoadBalancer_establishes_invariants_witness:
  "\<exists>b. newLoadBalancer = Inr b \<and> length (pool b) = 10 \<and>
       idx (mem b (pool b ! 7)) = 7 \<and>
       pending (mem b (pool b ! 3)) \<le> pending (mem b (pool b ! 8))"
proof -
  from newLoadBalancer_establishes_invariants obtain b where
    b: "newLoadBalancer = Inr b" "length (pool b) = workerSize"
    "\<forall>i \<in> {0..<length (pool b)}. idx (mem b (pool b ! i)) = int i" "heap_ok b" by blast
  have len: "length (pool b) = 10" using b(2) by (simp add: workerSize_def)
  have "idx (mem b (pool b ! 7)) = 7" using b(3) len by simp
  moreover have "(8::nat) \<in> {1..<length (pool b)}" using len by simp
  then have "pending (mem b (pool b ! ((8 - 1) div 2))) \<le> pending (mem b (pool b ! 8))"
    using b(4) unfolding heap_ok_def by blast
  ultimately show ?thesis using b(1) len by (intro exI[of _ b]) simp
qed

end
